theory Spec2Isabelle
  imports Complex_Main "HOL-Library.Word" "HOL-Library.Char_ord" "HOL-Library.List_Lexorder"
    "HOL-Library.Product_Lexorder"
begin

unbundle bit_operations_syntax

section \<open>The MDF engine of asammdf (\<^verbatim>\<open>asammdf/mdf.py\<close>): a shallow embedding\<close>

text \<open>
  The theory follows the methods of class \<^verbatim>\<open>MDF\<close> of \<^verbatim>\<open>asammdf/mdf.py\<close>.
  Conventions used throughout:
  \<^item> a raised Python exception is the \<open>Inl\<close> branch of a sum; a method whose body ends in a
    bare \<^verbatim>\<open>return\<close> yields \<open>None\<close>, a returned object yields \<open>Some\<close>;
  \<^item> time stamps are exact rationals: the order comparisons of the source are modelled
    exactly, the rounding of float64 additions is not;
  \<^item> a virtual group is given by the sequence of fragments that
    \<^verbatim>\<open>_yield_selected_signals\<close> produces for it.
\<close>

subsection \<open>Exceptions\<close>

text \<open>
  The three messages with which \<^verbatim>\<open>mdf.py\<close> raises \<^verbatim>\<open>MdfException\<close> in
  \<^verbatim>\<open>concatenate\<close> and \<^verbatim>\<open>stack\<close>: "No files given for merge" (or "for stack"),
  "internal structure of file ... is different; different channel groups count" and
  "internal structure of file ... is different; different channels".
\<close>

datatype mdf_message =
    No_files_given
  | Different_channel_groups_count
  | Different_channels

datatype py_error =
    KeyError
  | IndexError
  | MdfException mdf_message
  | UnboundLocalError
  | TypeError
  | AssertionError
  | AttributeError

subsection \<open>\<^verbatim>\<open>channels_db\<close>, \<^verbatim>\<open>__contains__\<close> and \<^verbatim>\<open>whereis\<close>\<close>

text \<open>
  \<^verbatim>\<open>channels_db\<close> maps a channel name to its occurrences, pairs of a group index and a
  channel index. Subscripting a Python dict with a missing key raises \<^verbatim>\<open>KeyError\<close>
  and leaves the dict as it was.
\<close>

type_synonym occurrence = "nat \<times> nat"

type_synonym channels_db = "string \<rightharpoonup> occurrence list"

definition db_getitem :: "channels_db \<Rightarrow> string \<Rightarrow> py_error + occurrence list" where
  "db_getitem db channel = (case db channel of None \<Rightarrow> Inl KeyError | Some occs \<Rightarrow> Inr occs)"

text \<open>\<^verbatim>\<open>MDF.__contains__\<close>: \<^verbatim>\<open>return channel in self.channels_db\<close>.\<close>

definition mdf_contains :: "channels_db \<Rightarrow> string \<Rightarrow> bool" where
  "mdf_contains db channel = (case db channel of None \<Rightarrow> False | Some occs \<Rightarrow> True)"

text \<open>
  What the filters of \<^verbatim>\<open>whereis\<close> look at: the source name and source path of the channel
  at an occurrence, and the acquisition name of its channel group.
\<close>

record occ_meta =
  om_source_name :: "string option"
  om_source_path :: "string option"
  om_acq_name :: "string option"

text \<open>
  Modelled from the spec: \<^verbatim>\<open>MDF._filter_occurrences\<close> is defined outside
  \<^verbatim>\<open>mdf.py\<close>. It keeps, in order, the occurrences that pass every filter that was
  given; a filter left at \<^verbatim>\<open>None\<close> passes everything.
\<close>

definition passes :: "occ_meta \<Rightarrow> string option \<Rightarrow> string option \<Rightarrow> string option \<Rightarrow> bool" where
  "passes m source_name source_path acq_name =
     ((case source_name of None \<Rightarrow> True | Some n \<Rightarrow> om_source_name m = Some n) \<and>
      (case source_path of None \<Rightarrow> True | Some p \<Rightarrow> om_source_path m = Some p) \<and>
      (case acq_name of None \<Rightarrow> True | Some a \<Rightarrow> om_acq_name m = Some a))"

definition filter_occurrences ::
  "(occurrence \<Rightarrow> occ_meta) \<Rightarrow> occurrence list \<Rightarrow> string option \<Rightarrow> string option \<Rightarrow>
   string option \<Rightarrow> occurrence list" where
  "filter_occurrences meta occurrences source_name source_path acq_name =
     filter (\<lambda>occ. passes (meta occ) source_name source_path acq_name) occurrences"

text \<open>
  \<^verbatim>\<open>MDF.whereis\<close>. The \<^verbatim>\<open>try\<close> block subscripts \<^verbatim>\<open>channels_db\<close>; the
  \<^verbatim>\<open>except KeyError\<close> branch gives the empty tuple, the \<^verbatim>\<open>else\<close> branch the
  filtered occurrences. The index after the call is returned beside the result.
\<close>

definition whereis ::
  "(occurrence \<Rightarrow> occ_meta) \<Rightarrow> channels_db \<Rightarrow> string \<Rightarrow> string option \<Rightarrow> string option \<Rightarrow>
   string option \<Rightarrow> (py_error + occurrence list) \<times> channels_db" where
  "whereis meta db channel source_name source_path acq_name =
     (case db_getitem db channel of
        Inl KeyError \<Rightarrow> (Inr [], db)
      | Inl e \<Rightarrow> (Inl e, db)
      | Inr occurrences \<Rightarrow>
          (Inr (filter_occurrences meta occurrences source_name source_path acq_name), db))"

subsection \<open>Signals, fragments, virtual groups and files\<close>

text \<open>
  A \<^verbatim>\<open>Signal\<close> carries samples, time stamps and optional invalidation bits. The samples
  are of an arbitrary type \<open>'v\<close>.
\<close>

record 'v signal =
  samples :: "'v list"
  timestamps :: "rat list"
  invalidation_bits :: "bool list option"

type_synonym 'v column = "'v list \<times> bool list option"

text \<open>
  One item produced by \<^verbatim>\<open>_yield_selected_signals\<close>: the master (time) array of the
  fragment and, for every selected channel, its samples and invalidation bits. The first
  item of a group hands the columns over as \<^verbatim>\<open>Signal\<close> objects that share the master
  as time stamps (\<open>first_signals\<close>); every later item is the list
  \<^verbatim>\<open>[(master, None), (samples, invalidation_bits), ...]\<close>.
\<close>

record 'v fragment =
  master :: "rat list"
  columns :: "'v column list"

definition first_signals :: "'v fragment \<Rightarrow> 'v signal list" where
  "first_signals sigs =
     map (\<lambda>(s, b). \<lparr>samples = s, timestamps = master sigs, invalidation_bits = b\<rparr>) (columns sigs)"

text \<open>
  A virtual group: its key in \<^verbatim>\<open>virtual_groups\<close>, the names of its included channels
  (\<^verbatim>\<open>included_channels(group_index)[group_index]\<close> is empty exactly when this list is)
  and the fragments the generator yields for it.
\<close>

record 'v vgroup =
  vg_key :: nat
  channel_names :: "string list"
  fragments :: "'v fragment list"

record 'v mdf =
  vgroups :: "'v vgroup list"
  start_time :: rat
  copy_on_get :: bool

text \<open>
  A channel group of a file that is being built: the key of the source group whose channel
  group data \<^verbatim>\<open>_transfer_channel_group_data\<close> copied, the stored master and the stored
  columns.
\<close>

record 'v out_group =
  og_source :: nat
  og_master :: "rat list"
  og_columns :: "'v column list"

text \<open>
  Modelled from the spec: \<^verbatim>\<open>append\<close> and \<^verbatim>\<open>extend\<close> of the version-specific engines
  are defined outside \<^verbatim>\<open>mdf.py\<close>. \<^verbatim>\<open>append(signals, common_timebase=True)\<close> adds a
  channel group whose master is the time base of the first signal and returns its index;
  here the call is taken together with the \<^verbatim>\<open>_transfer_channel_group_data\<close> that follows
  it at every call site. \<^verbatim>\<open>extend(index, [(master, None), (samples, bits), ...])\<close> grows
  the record count of group \<^verbatim>\<open>index\<close> by the new fragment.
\<close>

definition append_group :: "nat \<Rightarrow> 'v signal list \<Rightarrow> 'v out_group list \<Rightarrow> nat \<times> 'v out_group list" where
  "append_group key signals out =
     (length out,
      out @ [\<lparr>og_source = key,
              og_master = (case signals of [] \<Rightarrow> [] | sig # _ \<Rightarrow> timestamps sig),
              og_columns = map (\<lambda>sig. (samples sig, invalidation_bits sig)) signals\<rparr>])"

definition extend_bits :: "nat \<Rightarrow> bool list option \<Rightarrow> nat \<Rightarrow> bool list option \<Rightarrow> bool list option" where
  "extend_bits n old k new =
     (case (old, new) of
        (None, None) \<Rightarrow> None
      | (Some a, Some b) \<Rightarrow> Some (a @ b)
      | (Some a, None) \<Rightarrow> Some (a @ replicate k False)
      | (None, Some b) \<Rightarrow> Some (replicate n False @ b))"

definition extend_group :: "'v out_group \<Rightarrow> rat list \<Rightarrow> 'v column list \<Rightarrow> 'v out_group" where
  "extend_group g m cols =
     g\<lparr>og_master := og_master g @ m,
       og_columns := map (\<lambda>((s, b), (s', b')). (s @ s', extend_bits (length s) b (length s') b'))
                         (zip (og_columns g) cols)\<rparr>"

definition mdf_extend :: "nat \<Rightarrow> rat list \<Rightarrow> 'v column list \<Rightarrow> 'v out_group list \<Rightarrow> 'v out_group list" where
  "mdf_extend cg_nr m cols out =
     (if cg_nr < length out then out[cg_nr := extend_group (out ! cg_nr) m cols] else out)"

text \<open>The columns of a list of signals, as \<^verbatim>\<open>[(sig.samples, sig.invalidation_bits) for sig in signals]\<close>.\<close>

definition signal_columns :: "'v signal list \<Rightarrow> 'v column list" where
  "signal_columns signals = map (\<lambda>sig. (samples sig, invalidation_bits sig)) signals"

subsection \<open>\<^verbatim>\<open>Signal.cut\<close>\<close>

definition in_window :: "rat option \<Rightarrow> rat option \<Rightarrow> rat \<Rightarrow> bool" where
  "in_window start stop t =
     ((case start of None \<Rightarrow> True | Some a \<Rightarrow> a \<le> t) \<and>
      (case stop of None \<Rightarrow> True | Some b \<Rightarrow> t \<le> b))"

text \<open>A bound falls strictly inside a sampling interval: strictly between two consecutive time stamps.\<close>

fun inside_interval :: "rat \<Rightarrow> rat list \<Rightarrow> bool" where
  "inside_interval b (x # y # ys) = ((x < b \<and> b < y) \<or> inside_interval b (y # ys))"
| "inside_interval b [x] = False"
| "inside_interval b [] = False"

text \<open>The entries of \<open>xs\<close> whose time stamp satisfies \<open>P\<close>.\<close>

definition pick :: "(rat \<Rightarrow> bool) \<Rightarrow> rat list \<Rightarrow> 'a list \<Rightarrow> 'a list" where
  "pick P ts xs = map snd (filter (\<lambda>(t, x). P t) (zip ts xs))"

text \<open>
  Modelled from the spec: \<^verbatim>\<open>Signal.cut(start, stop, include_ends, ...)\<close> is defined in
  \<^verbatim>\<open>asammdf/signal.py\<close>, outside the given sources. Following the guarantee of the cut
  operation, the result holds only the samples with \<open>start \<le> t \<le> stop\<close>; with
  \<^verbatim>\<open>include_ends\<close>, a bound that falls strictly inside a sampling interval gets a
  synthesized sample at exactly that bound (once, when both bounds coincide). The value
  and the invalidation bit of a synthesized sample come from \<^verbatim>\<open>Signal.interp\<close>, taken
  here as the parameter \<open>interp\<close>.
\<close>

definition boundary :: "bool \<Rightarrow> rat option \<Rightarrow> rat option \<Rightarrow> rat list \<Rightarrow> rat option \<Rightarrow> rat list" where
  "boundary include_ends start stop ts bound =
     (case bound of
        None \<Rightarrow> []
      | Some b \<Rightarrow> if include_ends \<and> inside_interval b ts \<and> in_window start stop b then [b] else [])"

definition Signal_cut ::
  "('v signal \<Rightarrow> rat \<Rightarrow> 'v \<times> bool) \<Rightarrow> rat option \<Rightarrow> rat option \<Rightarrow> bool \<Rightarrow> 'v signal \<Rightarrow> 'v signal" where
  "Signal_cut interp start stop include_ends sig =
     (let ts = timestamps sig;
          lead = boundary include_ends start stop ts start;
          trail = (if stop = start then [] else boundary include_ends start stop ts stop)
      in \<lparr>samples = map (\<lambda>b. fst (interp sig b)) lead
                     @ pick (in_window start stop) ts (samples sig)
                     @ map (\<lambda>b. fst (interp sig b)) trail,
          timestamps = lead @ filter (in_window start stop) ts @ trail,
          invalidation_bits =
            map_option (\<lambda>bits. map (\<lambda>b. snd (interp sig b)) lead
                                @ pick (in_window start stop) ts bits
                                @ map (\<lambda>b. snd (interp sig b)) trail)
                       (invalidation_bits sig)\<rparr>)"

subsection \<open>\<^verbatim>\<open>MDF.cut\<close>\<close>

text \<open>
  \<^verbatim>\<open>np.searchsorted\<close> on a sorted array: with \<^verbatim>\<open>side="left"\<close> the number of entries
  below the value, with \<^verbatim>\<open>side="right"\<close> the number of entries not above it. (On an
  unsorted array numpy's bisection gives no such guarantee; the master of a fragment is
  sorted.)
\<close>

definition searchsorted_left :: "rat list \<Rightarrow> rat \<Rightarrow> nat" where
  "searchsorted_left a v = length (takeWhile (\<lambda>x. x < v) a)"

definition searchsorted_right :: "rat list \<Rightarrow> rat \<Rightarrow> nat" where
  "searchsorted_right a v = length (takeWhile (\<lambda>x. x \<le> v) a)"

text \<open>
  The test whether a fragment with a non-empty master lies in the cut interval
  (\<^verbatim>\<open>break\<close>, \<^verbatim>\<open>continue\<close>, or the clamped bounds of the fragment and
  \<^verbatim>\<open>needs_cutting\<close>).
\<close>

datatype window = WBreak | WContinue | Window "rat option" "rat option" bool

definition fragment_window :: "rat option \<Rightarrow> rat option \<Rightarrow> rat list \<Rightarrow> window" where
  "fragment_window start stop m =
     (case start of
        None \<Rightarrow>
          (case stop of
             None \<Rightarrow> Window None None False
           | Some b \<Rightarrow>
               if hd m > b then WBreak
               else (let fragment_stop = min b (last m);
                         stop_index = searchsorted_right m fragment_stop
                     in Window None (Some fragment_stop) (stop_index \<noteq> length m)))
      | Some a \<Rightarrow>
          (case stop of
             None \<Rightarrow>
               if last m < a then WContinue
               else (let fragment_start = max a (hd m);
                         start_index = searchsorted_left m fragment_start
                     in Window (Some fragment_start) None (start_index \<noteq> 0))
           | Some b \<Rightarrow>
               if hd m > b then WBreak
               else if last m < a then WContinue
               else (let fragment_start = max a (hd m);
                         start_index = searchsorted_left m fragment_start;
                         fragment_stop = min b (last m);
                         stop_index = searchsorted_right m fragment_stop
                     in Window (Some fragment_start) (Some fragment_stop)
                          (\<not> (start_index = 0 \<and> stop_index = length m)))))"

text \<open>
  The local variables of \<^verbatim>\<open>cut\<close> that live across fragments and groups: \<^verbatim>\<open>idx\<close>,
  \<^verbatim>\<open>signals\<close>, \<^verbatim>\<open>cg_nr\<close>, the file \<^verbatim>\<open>out\<close>, and whether \<^verbatim>\<open>start_\<close> and
  \<^verbatim>\<open>stop_\<close> have been bound.
\<close>

record 'v cut_state =
  cs_idx :: nat
  cs_signals :: "'v signal list"
  cs_cg_nr :: nat
  cs_out :: "'v out_group list"
  cs_named :: bool

datatype 'a flow = Brk 'a | Nxt 'a

text \<open>\<^verbatim>\<open>for signal, (samples, invalidation) in zip(signals, sigs[1:])\<close>: the update of later fragments.\<close>

definition update_signals :: "'v signal list \<Rightarrow> rat list \<Rightarrow> 'v column list \<Rightarrow> 'v signal list" where
  "update_signals signals m cols =
     map (\<lambda>(signal, (s, b)). signal\<lparr>samples := s, timestamps := m, invalidation_bits := b\<rparr>)
         (zip signals cols)
     @ drop (length cols) signals"

text \<open>The tail of the loop body, from \<^verbatim>\<open>if time_from_zero\<close> to \<^verbatim>\<open>idx += 1\<close>.\<close>

definition emit :: "bool \<Rightarrow> rat \<Rightarrow> nat \<Rightarrow> rat list \<Rightarrow> 'v cut_state \<Rightarrow> 'v cut_state" where
  "emit time_from_zero delta key m s =
     (let m1 = (if time_from_zero then map (\<lambda>t. t - delta) m else m);
          signals = (if time_from_zero then map (\<lambda>sig. sig\<lparr>timestamps := m1\<rparr>) (cs_signals s)
                     else cs_signals s)
      in if cs_idx s = 0 then
           s\<lparr>cs_signals := signals,
             cs_cg_nr := fst (append_group key signals (cs_out s)),
             cs_out := snd (append_group key signals (cs_out s)),
             cs_named := True,
             cs_idx := 1\<rparr>
         else
           s\<lparr>cs_signals := signals,
             cs_out := mdf_extend (cs_cg_nr s) m1 (signal_columns signals) (cs_out s),
             cs_idx := cs_idx s + 1\<rparr>)"

definition cut_fragment ::
  "('v signal \<Rightarrow> rat \<Rightarrow> 'v \<times> bool) \<Rightarrow> rat option \<Rightarrow> rat option \<Rightarrow> bool \<Rightarrow> bool \<Rightarrow> rat \<Rightarrow> nat \<Rightarrow>
   nat \<Rightarrow> 'v fragment \<Rightarrow> 'v cut_state \<Rightarrow> 'v cut_state flow" where
  "cut_fragment interp start stop include_ends time_from_zero delta key j sigs s =
     (if j = 0 \<and> columns sigs = [] then Brk s
      else
        let s1 = (if j = 0 then s\<lparr>cs_signals := first_signals sigs\<rparr> else s);
            m = master sigs
        in if m = [] then Nxt s1
           else
             (case fragment_window start stop m of
                WBreak \<Rightarrow> Brk s1
              | WContinue \<Rightarrow> Nxt s1
              | Window fragment_start fragment_stop needs_cutting \<Rightarrow>
                  let s2 = (if j \<noteq> 0
                            then s1\<lparr>cs_signals := update_signals (cs_signals s1) m (columns sigs)\<rparr>
                            else s1)
                  in if needs_cutting then
                       (let m' = timestamps
                                   (Signal_cut (\<lambda>sig t. (t, False)) fragment_start fragment_stop
                                      include_ends
                                      \<lparr>samples = m, timestamps = m, invalidation_bits = None\<rparr>)
                        in if m' = [] then Nxt s2
                           else Nxt (emit time_from_zero delta key m'
                                  (s2\<lparr>cs_signals :=
                                        map (Signal_cut interp (Some (hd m')) (Some (last m'))
                                               include_ends)
                                            (cs_signals s2)\<rparr>)))
                     else Nxt (emit time_from_zero delta key m s2)))"

fun cut_fragments ::
  "('v signal \<Rightarrow> rat \<Rightarrow> 'v \<times> bool) \<Rightarrow> rat option \<Rightarrow> rat option \<Rightarrow> bool \<Rightarrow> bool \<Rightarrow> rat \<Rightarrow> nat \<Rightarrow>
   nat \<Rightarrow> 'v fragment list \<Rightarrow> 'v cut_state \<Rightarrow> 'v cut_state" where
  "cut_fragments interp start stop include_ends time_from_zero delta key j [] s = s"
| "cut_fragments interp start stop include_ends time_from_zero delta key j (sigs # rest) s =
     (case cut_fragment interp start stop include_ends time_from_zero delta key j sigs s of
        Brk s' \<Rightarrow> s'
      | Nxt s' \<Rightarrow>
          cut_fragments interp start stop include_ends time_from_zero delta key (Suc j) rest s')"

text \<open>
  One virtual group that has included channels: the loop over its fragments, then the
  branch that appends a group with 0 cycles when nothing was appended.
\<close>

definition zero_cycles :: "'v signal \<Rightarrow> 'v signal" where
  "zero_cycles sig =
     sig\<lparr>samples := [], timestamps := [],
         invalidation_bits := (case invalidation_bits sig of None \<Rightarrow> None | Some bits \<Rightarrow> Some [])\<rparr>"

definition cut_group ::
  "('v signal \<Rightarrow> rat \<Rightarrow> 'v \<times> bool) \<Rightarrow> rat option \<Rightarrow> rat option \<Rightarrow> bool \<Rightarrow> bool \<Rightarrow> rat \<Rightarrow>
   'v vgroup \<Rightarrow> 'v cut_state \<Rightarrow> 'v cut_state" where
  "cut_group interp start stop include_ends time_from_zero delta g s =
     (let s1 = cut_fragments interp start stop include_ends time_from_zero delta (vg_key g) 0
                 (fragments g) (s\<lparr>cs_idx := 0, cs_signals := []\<rparr>)
      in if cs_idx s1 = 0 \<and> cs_signals s1 \<noteq> [] then
           (let signals = map zero_cycles (cs_signals s1)
            in s1\<lparr>cs_signals := signals,
                  cs_cg_nr := fst (append_group (vg_key g) signals (cs_out s1)),
                  cs_out := snd (append_group (vg_key g) signals (cs_out s1)),
                  cs_named := True\<rparr>)
         else s1)"

text \<open>
  The loop over the virtual groups. A group without included channels is skipped by
  \<^verbatim>\<open>continue\<close>, before the terminate flag is read. \<open>terminate i\<close> is the value of the
  flag when it is read at the end of iteration \<open>i\<close>; \<open>None\<close> is the bare \<^verbatim>\<open>return\<close>.
\<close>

fun cut_groups ::
  "('v signal \<Rightarrow> rat \<Rightarrow> 'v \<times> bool) \<Rightarrow> rat option \<Rightarrow> rat option \<Rightarrow> bool \<Rightarrow> bool \<Rightarrow> rat \<Rightarrow>
   (nat \<Rightarrow> bool) \<Rightarrow> nat \<Rightarrow> 'v vgroup list \<Rightarrow> 'v cut_state \<Rightarrow> 'v cut_state option" where
  "cut_groups interp start stop include_ends time_from_zero delta terminate i [] s = Some s"
| "cut_groups interp start stop include_ends time_from_zero delta terminate i (g # gs) s =
     (if channel_names g = [] then
        cut_groups interp start stop include_ends time_from_zero delta terminate (Suc i) gs s
      else
        let s' = cut_group interp start stop include_ends time_from_zero delta g s
        in if terminate i then None
           else cut_groups interp start stop include_ends time_from_zero delta terminate (Suc i) gs s')"

text \<open>
  The first time stamp of a group (\<^verbatim>\<open>get_master(group, record_offset=0, record_count=1)\<close>)
  and the smallest of them, used with \<^verbatim>\<open>whence == 1\<close>.
\<close>

definition group_first :: "'v vgroup \<Rightarrow> rat list" where
  "group_first g = take 1 (concat (map master (fragments g)))"

definition first_timestamp :: "'v mdf \<Rightarrow> rat" where
  "first_timestamp self =
     (case concat (map group_first (vgroups self)) of
        [] \<Rightarrow> 0
      | t # ts \<Rightarrow> fold min ts t)"

text \<open>
  \<^verbatim>\<open>MDF.cut\<close>. The result is the raised exception, \<open>None\<close> for the bare \<^verbatim>\<open>return\<close>, or
  the new file; beside it stands the source instance as the call leaves it. With
  \<^verbatim>\<open>time_from_zero\<close> and no \<^verbatim>\<open>start\<close> the sum \<^verbatim>\<open>timestamp() + delta\<close> raises
  \<^verbatim>\<open>TypeError\<close>; the message built after the loop reads \<^verbatim>\<open>start_\<close>, which is bound
  only where a group is appended.
\<close>

definition cut ::
  "('v signal \<Rightarrow> rat \<Rightarrow> 'v \<times> bool) \<Rightarrow> (nat \<Rightarrow> bool) \<Rightarrow> 'v mdf \<Rightarrow> rat option \<Rightarrow> rat option \<Rightarrow> int \<Rightarrow>
   bool \<Rightarrow> bool \<Rightarrow> (py_error + 'v out_group list option) \<times> 'v mdf" where
  "cut interp terminate self start stop whence include_ends time_from_zero =
     (let self1 = self\<lparr>copy_on_get := False\<rparr>;
          start1 = (if whence = 1 then map_option (\<lambda>a. a + first_timestamp self) start else start);
          stop1 = (if whence = 1 then map_option (\<lambda>b. b + first_timestamp self) stop else stop);
          s0 = \<lparr>cs_idx = 0, cs_signals = [], cs_cg_nr = 0, cs_out = [], cs_named = False\<rparr>
      in if time_from_zero \<and> start1 = None then (Inl TypeError, self1)
         else
           (case cut_groups interp start1 stop1 include_ends time_from_zero
                   (case start1 of None \<Rightarrow> 0 | Some d \<Rightarrow> if time_from_zero then d else 0)
                   terminate 0 (vgroups self) s0 of
              None \<Rightarrow> (Inr None, self1)
            | Some s \<Rightarrow>
                if cs_named s then (Inr (Some (cs_out s)), self1\<lparr>copy_on_get := True\<rparr>)
                else (Inl UnboundLocalError, self1\<lparr>copy_on_get := True\<rparr>)))"

subsection \<open>\<^verbatim>\<open>MDF.convert\<close> and \<^verbatim>\<open>MDF.filter\<close>\<close>

text \<open>
  The inner loop shared by \<^verbatim>\<open>convert\<close> and \<^verbatim>\<open>filter\<close>: the first item of a group is
  appended (the loop breaks when it holds no signal), every later item extends the group.
\<close>

fun copy_fragments :: "nat \<Rightarrow> nat \<Rightarrow> nat \<Rightarrow> 'v fragment list \<Rightarrow> 'v out_group list \<Rightarrow> 'v out_group list" where
  "copy_fragments key idx cg_nr [] out = out"
| "copy_fragments key idx cg_nr (sigs # rest) out =
     (if idx = 0 then
        (if columns sigs = [] then out
         else copy_fragments key 1 (fst (append_group key (first_signals sigs) out)) rest
                (snd (append_group key (first_signals sigs) out)))
      else copy_fragments key (Suc idx) cg_nr rest (mdf_extend cg_nr (master sigs) (columns sigs) out))"

text \<open>The loop over the groups, with the terminate flag read at the end of every iteration.\<close>

fun copy_groups :: "(nat \<Rightarrow> bool) \<Rightarrow> nat \<Rightarrow> 'v vgroup list \<Rightarrow> 'v out_group list \<Rightarrow> 'v out_group list option" where
  "copy_groups terminate i [] out = Some out"
| "copy_groups terminate i (g # gs) out =
     (let out' = copy_fragments (vg_key g) 0 0 (fragments g) out
      in if terminate i then None else copy_groups terminate (Suc i) gs out')"

definition convert ::
  "(nat \<Rightarrow> bool) \<Rightarrow> 'v mdf \<Rightarrow> (py_error + 'v out_group list option) \<times> 'v mdf" where
  "convert terminate self =
     (let self1 = self\<lparr>copy_on_get := False\<rparr>
      in case copy_groups terminate 0 (vgroups self) [] of
           None \<Rightarrow> (Inr None, self1)
         | Some out \<Rightarrow> (Inr (Some out), self1\<lparr>copy_on_get := True\<rparr>))"

text \<open>
  \<^verbatim>\<open>filter\<close> first resolves the channel selection with \<^verbatim>\<open>included_channels\<close>, which is
  defined outside \<^verbatim>\<open>mdf.py\<close> and is a parameter here: it gives the selected groups, each
  with the fragments of its selected channels, or raises.
\<close>

definition filter_mdf ::
  "('v mdf \<Rightarrow> 'c \<Rightarrow> py_error + 'v vgroup list) \<Rightarrow> (nat \<Rightarrow> bool) \<Rightarrow> 'v mdf \<Rightarrow> 'c \<Rightarrow>
   (py_error + 'v out_group list option) \<times> 'v mdf" where
  "filter_mdf included_channels terminate self channels =
     (case included_channels self channels of
        Inl e \<Rightarrow> (Inl e, self)
      | Inr gps \<Rightarrow>
          (let self1 = self\<lparr>copy_on_get := False\<rparr>
           in case copy_groups terminate 0 gps [] of
                None \<Rightarrow> (Inr None, self1)
              | Some out \<Rightarrow> (Inr (Some out), self1\<lparr>copy_on_get := True\<rparr>)))"

subsection \<open>\<^verbatim>\<open>MDF.stack\<close>\<close>

fun stack_fragments ::
  "bool \<Rightarrow> rat \<Rightarrow> nat \<Rightarrow> nat \<Rightarrow> nat \<Rightarrow> 'v fragment list \<Rightarrow> 'v out_group list \<Rightarrow> 'v out_group list" where
  "stack_fragments sync offset key idx dg_cntr [] out = out"
| "stack_fragments sync offset key idx dg_cntr (sigs # rest) out =
     (if idx = 0 then
        (if columns sigs = [] then out
         else
           (let signals = (if sync
                           then map (\<lambda>sig. sig\<lparr>timestamps := map (\<lambda>t. t + offset) (master sigs)\<rparr>)
                                    (first_signals sigs)
                           else first_signals sigs)
            in stack_fragments sync offset key 1 (fst (append_group key signals out)) rest
                 (snd (append_group key signals out))))
      else
        stack_fragments sync offset key (Suc idx) dg_cntr rest
          (mdf_extend dg_cntr (if sync then map (\<lambda>t. t + offset) (master sigs) else master sigs)
             (columns sigs) out))"

fun stack_groups :: "bool \<Rightarrow> rat \<Rightarrow> 'v vgroup list \<Rightarrow> 'v out_group list \<Rightarrow> 'v out_group list" where
  "stack_groups sync offset [] out = out"
| "stack_groups sync offset (g # gs) out =
     (if channel_names g = [] then stack_groups sync offset gs out
      else stack_groups sync offset gs (stack_fragments sync offset (vg_key g) 0 0 (fragments g) out))"

text \<open>
  The loop over the files. Every file has \<^verbatim>\<open>copy_on_get\<close> switched off, is read, and has
  it switched on again; then the terminate flag is read. The files are returned as the
  call leaves them.
\<close>

fun stack_files ::
  "(nat \<Rightarrow> bool) \<Rightarrow> bool \<Rightarrow> nat \<Rightarrow> (rat \<times> 'v mdf) list \<Rightarrow> 'v out_group list \<Rightarrow>
   (py_error + 'v out_group list option) \<times> 'v mdf list" where
  "stack_files terminate sync mdf_index [] stacked = (Inr (Some stacked), [])"
| "stack_files terminate sync mdf_index ((offset, mdf) # rest) stacked =
     (let mdf1 = mdf\<lparr>copy_on_get := False\<rparr>;
          stacked' = stack_groups sync offset (vgroups mdf) stacked;
          mdf2 = mdf1\<lparr>copy_on_get := True\<rparr>
      in if terminate mdf_index then (Inr None, mdf2 # map snd rest)
         else (case stack_files terminate sync (Suc mdf_index) rest stacked' of
                 (r, fs) \<Rightarrow> (r, mdf2 # fs)))"

text \<open>The smallest start time of a non-empty list of files (\<^verbatim>\<open>oldest = min(timestamps)\<close>).\<close>

definition oldest :: "'v mdf list \<Rightarrow> rat" where
  "oldest files = (case map start_time files of [] \<Rightarrow> 0 | t # ts \<Rightarrow> fold min ts t)"

definition stack ::
  "(nat \<Rightarrow> bool) \<Rightarrow> 'v mdf list \<Rightarrow> bool \<Rightarrow> (py_error + 'v out_group list option) \<times> 'v mdf list" where
  "stack terminate files sync =
     (if files = [] then (Inl (MdfException No_files_given), files)
      else
        (let offsets = (if sync then map (\<lambda>file. start_time file - oldest files) files
                        else map (\<lambda>file. 0) files)
         in stack_files terminate sync 0 (zip offsets files) []))"

subsection \<open>\<^verbatim>\<open>MDF.concatenate\<close>\<close>

text \<open>
  The time stamps of a fragment that is appended to a group which already holds data
  (the block under \<^verbatim>\<open>if len(master):\<close>): shifted by the offset of the file, and, when the
  last time stamp written so far is not below the first one of the fragment (or with
  \<^verbatim>\<open>direct_timestamp_continuation\<close>), moved to start at that last time stamp plus a
  delta. The result is the new master and the new \<^verbatim>\<open>last_timestamp\<close>.
\<close>

definition shift_master :: "rat \<Rightarrow> bool \<Rightarrow> rat option \<Rightarrow> rat list \<Rightarrow> rat list \<times> rat option" where
  "shift_master offset direct_timestamp_continuation last_timestamp m =
     (let m1 = (if offset > 0 then map (\<lambda>t. t + offset) m else m)
      in case last_timestamp of
           None \<Rightarrow> (m1, Some (last m1))
         | Some l \<Rightarrow>
             if l \<ge> hd m1 \<or> direct_timestamp_continuation then
               (let delta = (if length m1 \<ge> 2 then m1 ! 1 - m1 ! 0 else 1 / 1000);
                    m2 = map (\<lambda>t. t - hd m1) m1;
                    m3 = map (\<lambda>t. t + (l + delta)) m2
                in (m3, Some (last m3)))
             else (m1, Some (last m1)))"

text \<open>
  The variables of \<^verbatim>\<open>concatenate\<close> that live across fragments, groups and files:
  the file \<^verbatim>\<open>merged\<close>, \<^verbatim>\<open>cg_map\<close>, the local \<^verbatim>\<open>last_timestamp\<close>, the list
  \<^verbatim>\<open>last_timestamps\<close>, \<^verbatim>\<open>included_channel_names\<close> and \<^verbatim>\<open>groups_nr\<close>. The locals
  \<^verbatim>\<open>first_timestamp\<close> and \<^verbatim>\<open>original_first_timestamp\<close> are written and never read.
\<close>

record 'v cat_state =
  ct_merged :: "'v out_group list"
  ct_cg_map :: "nat \<rightharpoonup> nat"
  ct_last :: "rat option"
  ct_last_timestamps :: "rat option list"
  ct_names :: "string list list"
  ct_groups_nr :: nat

text \<open>
  The branch \<^verbatim>\<open>mdf_index == 0 and idx == 0\<close>: the first item of a group of the first file
  is appended. \<open>origin\<close> gives the sample written to the \<^verbatim>\<open>__samples_origin\<close> channel
  for a file index.
\<close>

definition cat_first ::
  "(nat \<Rightarrow> 'v) \<Rightarrow> bool \<Rightarrow> nat \<Rightarrow> rat \<Rightarrow> nat \<Rightarrow> 'v signal list \<Rightarrow> 'v cat_state \<Rightarrow> py_error + 'v cat_state" where
  "cat_first origin add_samples_origin mdf_index offset key signals st =
     (case signals of
        [] \<Rightarrow> Inl IndexError
      | first_signal # others \<Rightarrow>
          if samples first_signal \<noteq> [] \<and> timestamps first_signal = [] then Inl IndexError
          else
            (let ts = (if samples first_signal \<noteq> [] \<and> offset > 0
                       then map (\<lambda>t. t + offset) (timestamps first_signal)
                       else timestamps first_signal);
                 signals1 = (if samples first_signal \<noteq> [] \<and> offset > 0
                             then map (\<lambda>sig. sig\<lparr>timestamps := ts\<rparr>) signals else signals);
                 last_timestamp = (if samples first_signal \<noteq> [] then Some (last ts) else ct_last st);
                 signals2 = (if add_samples_origin
                             then signals1 @ [\<lparr>samples = replicate (length (samples first_signal))
                                                            (origin mdf_index),
                                               timestamps = ts, invalidation_bits = None\<rparr>]
                             else signals1)
             in Inr (st\<lparr>ct_merged := snd (append_group key signals2 (ct_merged st)),
                        ct_cg_map := (ct_cg_map st)(key \<mapsto> fst (append_group key signals2 (ct_merged st))),
                        ct_last := last_timestamp\<rparr>)))"

text \<open>
  \<^verbatim>\<open>new_signals[new_index] = sig\<close> for the pairs of \<^verbatim>\<open>zip(remap, signals)\<close>, starting
  from a list of \<^verbatim>\<open>None\<close>; an index past the end raises \<^verbatim>\<open>IndexError\<close>.
\<close>

fun place :: "'a option list \<Rightarrow> (nat \<times> 'a) list \<Rightarrow> py_error + 'a option list" where
  "place acc [] = Inr acc"
| "place acc ((new_index, sig) # rest) =
     (if new_index < length acc then place (acc[new_index := Some sig]) rest else Inl IndexError)"

definition index_of :: "'a list \<Rightarrow> 'a \<Rightarrow> nat" where
  "index_of xs x = length (takeWhile (\<lambda>y. y \<noteq> x) xs)"

text \<open>
  The \<^verbatim>\<open>else\<close> branch: an item of a later file, or a later item of the first file. With
  a different channel order the columns are put in the order of the first file; a slot
  that stays \<^verbatim>\<open>None\<close> makes the attribute access on it fail for a first item, and makes
  \<^verbatim>\<open>extend\<close> fail to unpack it for a later one.
\<close>

definition cat_next ::
  "(nat \<Rightarrow> 'v) \<Rightarrow> bool \<Rightarrow> bool \<Rightarrow> nat \<Rightarrow> rat \<Rightarrow> nat \<Rightarrow> bool \<Rightarrow> nat list \<Rightarrow> nat \<Rightarrow> 'v fragment \<Rightarrow>
   'v cat_state \<Rightarrow> py_error + 'v cat_state" where
  "cat_next origin add_samples_origin direct_timestamp_continuation mdf_index offset key
     different_channel_order remap idx sigs st =
     (case (if different_channel_order
            then place (replicate (length (columns sigs)) None) (zip remap (columns sigs))
            else Inr (map Some (columns sigs))) of
        Inl e \<Rightarrow> Inl e
      | Inr new_signals \<Rightarrow>
          if idx = 0 \<and> None \<in> set new_signals then Inl AttributeError
          else if master sigs = [] then Inr st
          else
            (let (m, last_timestamp) =
                   shift_master offset direct_timestamp_continuation (ct_last st) (master sigs);
                 st1 = st\<lparr>ct_last := last_timestamp\<rparr>
             in case ct_cg_map st key of
                  None \<Rightarrow> Inl KeyError
                | Some cg_nr \<Rightarrow>
                    if None \<in> set new_signals then Inl TypeError
                    else
                      Inr (st1\<lparr>ct_merged :=
                                 mdf_extend cg_nr m
                                   (map the new_signals
                                    @ (if add_samples_origin
                                       then [(replicate (length m) (origin mdf_index), None)]
                                       else []))
                                   (ct_merged st)\<rparr>)))"

fun cat_fragments ::
  "(nat \<Rightarrow> 'v) \<Rightarrow> bool \<Rightarrow> bool \<Rightarrow> nat \<Rightarrow> rat \<Rightarrow> nat \<Rightarrow> bool \<Rightarrow> nat list \<Rightarrow> nat \<Rightarrow> 'v fragment list \<Rightarrow>
   'v cat_state \<Rightarrow> py_error + 'v cat_state" where
  "cat_fragments origin aso dtc mdf_index offset key dco remap idx [] st = Inr st"
| "cat_fragments origin aso dtc mdf_index offset key dco remap idx (sigs # rest) st =
     (if idx = 0 \<and> columns sigs = [] then Inr st
      else
        (case (if mdf_index = 0 \<and> idx = 0
               then cat_first origin aso mdf_index offset key (first_signals sigs) st
               else cat_next origin aso dtc mdf_index offset key dco remap idx sigs st) of
           Inl e \<Rightarrow> Inl e
         | Inr st' \<Rightarrow> cat_fragments origin aso dtc mdf_index offset key dco remap (Suc idx) rest st'))"

text \<open>
  One group \<open>i\<close> of file \<open>mdf_index\<close>: the comparison of the channel names with those of
  the first file, then the loop over the fragments.
\<close>

definition cat_group_rest ::
  "(nat \<Rightarrow> 'v) \<Rightarrow> bool \<Rightarrow> bool \<Rightarrow> nat \<Rightarrow> rat \<Rightarrow> nat \<Rightarrow> bool \<Rightarrow> nat list \<Rightarrow> 'v vgroup \<Rightarrow>
   'v cat_state \<Rightarrow> py_error + 'v cat_state" where
  "cat_group_rest origin aso dtc mdf_index offset i different_channel_order remap g st =
     (if channel_names g = [] then Inr st
      else
        (case cat_fragments origin aso dtc mdf_index offset (vg_key g) different_channel_order
                remap 0 (fragments g) (st\<lparr>ct_last := ct_last_timestamps st ! i\<rparr>) of
           Inl e \<Rightarrow> Inl e
         | Inr st2 \<Rightarrow>
             Inr (st2\<lparr>ct_last_timestamps := (ct_last_timestamps st2)[i := ct_last st2]\<rparr>)))"

definition cat_group ::
  "(nat \<Rightarrow> 'v) \<Rightarrow> bool \<Rightarrow> bool \<Rightarrow> nat \<Rightarrow> rat \<Rightarrow> nat \<Rightarrow> 'v vgroup \<Rightarrow> 'v cat_state \<Rightarrow> py_error + 'v cat_state" where
  "cat_group origin aso dtc mdf_index offset i g st =
     (if mdf_index = 0 then
        cat_group_rest origin aso dtc mdf_index offset i False [] g
          (st\<lparr>ct_names := ct_names st @ [channel_names g]\<rparr>)
      else if channel_names g \<noteq> ct_names st ! i then
        (if sort (channel_names g) \<noteq> sort (ct_names st ! i)
         then Inl (MdfException Different_channels)
         else cat_group_rest origin aso dtc mdf_index offset i True
                (map (index_of (ct_names st ! i)) (channel_names g)) g st)
      else cat_group_rest origin aso dtc mdf_index offset i False [] g st)"

fun cat_groups ::
  "(nat \<Rightarrow> 'v) \<Rightarrow> bool \<Rightarrow> bool \<Rightarrow> nat \<Rightarrow> rat \<Rightarrow> nat \<Rightarrow> 'v vgroup list \<Rightarrow> 'v cat_state \<Rightarrow>
   py_error + 'v cat_state" where
  "cat_groups origin aso dtc mdf_index offset i [] st = Inr st"
| "cat_groups origin aso dtc mdf_index offset i (g # gs) st =
     (case cat_group origin aso dtc mdf_index offset i g st of
        Inl e \<Rightarrow> Inl e
      | Inr st' \<Rightarrow> cat_groups origin aso dtc mdf_index offset (Suc i) gs st')"

text \<open>
  One file of the loop over the files. A file other than the first with a different
  number of virtual groups raises; an exception leaves the file with \<^verbatim>\<open>copy_on_get\<close>
  switched off.
\<close>

definition cat_file ::
  "(nat \<Rightarrow> 'v) \<Rightarrow> bool \<Rightarrow> bool \<Rightarrow> nat \<Rightarrow> rat \<Rightarrow> 'v mdf \<Rightarrow> 'v cat_state \<Rightarrow>
   (py_error + 'v cat_state) \<times> 'v mdf" where
  "cat_file origin aso dtc mdf_index offset mdf st =
     (let mdf1 = mdf\<lparr>copy_on_get := False\<rparr>;
          st1 = (if mdf_index = 0
                 then st\<lparr>ct_last_timestamps := replicate (length (vgroups mdf)) None,
                         ct_groups_nr := length (vgroups mdf)\<rparr>
                 else st)
      in if mdf_index \<noteq> 0 \<and> length (vgroups mdf) \<noteq> ct_groups_nr st
         then (Inl (MdfException Different_channel_groups_count), mdf1)
         else
           (case cat_groups origin aso dtc mdf_index offset 0 (vgroups mdf) st1 of
              Inl e \<Rightarrow> (Inl e, mdf1)
            | Inr st2 \<Rightarrow> (Inr st2, mdf1\<lparr>copy_on_get := True\<rparr>)))"

text \<open>
  The loop over the files. The terminate flag is read once per file, after
  \<^verbatim>\<open>copy_on_get\<close> was switched on again. The files are returned as the call leaves them.
\<close>

fun cat_files ::
  "(nat \<Rightarrow> 'v) \<Rightarrow> bool \<Rightarrow> bool \<Rightarrow> (nat \<Rightarrow> bool) \<Rightarrow> nat \<Rightarrow> (rat \<times> 'v mdf) list \<Rightarrow> 'v cat_state \<Rightarrow>
   (py_error + 'v out_group list option) \<times> 'v mdf list" where
  "cat_files origin aso dtc terminate mdf_index [] st = (Inr (Some (ct_merged st)), [])"
| "cat_files origin aso dtc terminate mdf_index ((offset, mdf) # rest) st =
     (case cat_file origin aso dtc mdf_index offset mdf st of
        (Inl e, mdf') \<Rightarrow> (Inl e, mdf' # map snd rest)
      | (Inr st2, mdf') \<Rightarrow>
          if terminate mdf_index then (Inr None, mdf' # map snd rest)
          else (case cat_files origin aso dtc terminate (Suc mdf_index) rest st2 of
                  (r, fs) \<Rightarrow> (r, mdf' # fs)))"

text \<open>
  \<^verbatim>\<open>MDF.concatenate(files, version, sync, add_samples_origin,
  direct_timestamp_continuation)\<close>, for files given as \<^verbatim>\<open>MDF\<close> instances and without a
  callback. With \<^verbatim>\<open>sync\<close> the offset of a file is its start time relative to the oldest
  one, never negative; without it every offset is 0.
\<close>

definition concatenate ::
  "(nat \<Rightarrow> 'v) \<Rightarrow> (nat \<Rightarrow> bool) \<Rightarrow> 'v mdf list \<Rightarrow> bool \<Rightarrow> bool \<Rightarrow> bool \<Rightarrow>
   (py_error + 'v out_group list option) \<times> 'v mdf list" where
  "concatenate origin terminate files sync add_samples_origin direct_timestamp_continuation =
     (if files = [] then (Inl (MdfException No_files_given), files)
      else
        (let offsets = (if sync
                        then map (\<lambda>file. if start_time file - oldest files > 0
                                          then start_time file - oldest files else 0) files
                        else map (\<lambda>file. 0) files)
         in cat_files origin add_samples_origin direct_timestamp_continuation terminate 0
              (zip offsets files)
              \<lparr>ct_merged = [], ct_cg_map = Map.empty, ct_last = None, ct_last_timestamps = [],
               ct_names = [], ct_groups_nr = 0\<rparr>))"

subsection \<open>The structure that \<^verbatim>\<open>concatenate\<close> requires\<close>

text \<open>
  Two files have the same channel-group structure when they have the same number of
  virtual groups and corresponding groups hold the same channel names, whatever their
  order; a list of files has identical structure when every file agrees with the first.
\<close>

definition same_structure :: "'v mdf \<Rightarrow> 'v mdf \<Rightarrow> bool" where
  "same_structure a b =
     list_all2 (\<lambda>g h. sort (channel_names h) = sort (channel_names g)) (vgroups a) (vgroups b)"

definition identical_structure :: "'v mdf list \<Rightarrow> bool" where
  "identical_structure files =
     (case files of [] \<Rightarrow> True | first # others \<Rightarrow> list_all (same_structure first) others)"

text \<open>
  The exceptions of \<^verbatim>\<open>concatenate\<close>: the two that report a structural mismatch, and those
  that the merging of the data of a group can raise.
\<close>

definition structural_mismatch :: "py_error \<Rightarrow> bool" where
  "structural_mismatch e =
     (e = MdfException Different_channel_groups_count \<or> e = MdfException Different_channels)"

definition data_error :: "py_error \<Rightarrow> bool" where
  "data_error e = (e \<in> {IndexError, AttributeError, KeyError, TypeError})"

subsection \<open>Well-formed input of \<^verbatim>\<open>concatenate\<close>\<close>

text \<open>
  What \<^verbatim>\<open>_yield_selected_signals\<close> delivers for a group with included channels: every
  item carries at least one column, every column is as long as the master, and the master
  is sorted.
\<close>

definition wf_fragment :: "'v fragment \<Rightarrow> bool" where
  "wf_fragment fr =
     (columns fr \<noteq> [] \<and> sorted (master fr) \<and>
      list_all (\<lambda>c. length (fst c) = length (master fr)) (columns fr))"

text \<open>A file with exactly one virtual group, of the given key and channel names, that yields at least one item.\<close>

definition single_group_file :: "nat \<Rightarrow> string list \<Rightarrow> 'v mdf \<Rightarrow> bool" where
  "single_group_file key names file =
     (case vgroups file of
        [g] \<Rightarrow> vg_key g = key \<and> channel_names g = names \<and> fragments g \<noteq> [] \<and>
               list_all wf_fragment (fragments g)
      | _ \<Rightarrow> False)"

text \<open>All time stamps of a file, group after group.\<close>

definition file_timestamps :: "'v mdf \<Rightarrow> rat list" where
  "file_timestamps file = concat (map (\<lambda>g. concat (map master (fragments g))) (vgroups file))"

text \<open>
  The invariants of the merge of single-group files: inside the loop over the fragments
  (\<open>one_group\<close>) and between two files (\<open>merged_one\<close>) the file \<^verbatim>\<open>merged\<close> holds one
  group with a sorted master, and \<^verbatim>\<open>last_timestamp\<close> is the last entry of that master.
\<close>

definition one_group :: "nat \<Rightarrow> 'v cat_state \<Rightarrow> rat list \<Rightarrow> bool" where
  "one_group key st M =
     (\<exists>og. ct_merged st = [og] \<and> og_master og = M \<and> ct_cg_map st key = Some 0 \<and> sorted M \<and>
           ct_last st = (if M = [] then None else Some (last M)))"

definition merged_one :: "nat \<Rightarrow> string list \<Rightarrow> 'v cat_state \<Rightarrow> nat \<Rightarrow> bool" where
  "merged_one key names st n =
     (\<exists>og. ct_merged st = [og] \<and> length (og_master og) = n \<and> sorted (og_master og) \<and>
           ct_cg_map st key = Some 0 \<and>
           ct_last_timestamps st = [if og_master og = [] then None else Some (last (og_master og))] \<and>
           ct_names st = [names] \<and> ct_groups_nr st = 1)"

subsection \<open>The result of \<^verbatim>\<open>MDF.cut\<close> as a function of the fragments\<close>

text \<open>
  The time stamps that \<^verbatim>\<open>Signal.cut\<close> keeps of a time base: the synthesized start, the
  time stamps of the window, the synthesized stop.
\<close>

definition cut_times :: "bool \<Rightarrow> rat option \<Rightarrow> rat option \<Rightarrow> rat list \<Rightarrow> rat list" where
  "cut_times include_ends start stop ts =
     boundary include_ends start stop ts start
     @ filter (in_window start stop) ts
     @ (if stop = start then [] else boundary include_ends start stop ts stop)"

text \<open>
  What one pass of the loop body of \<^verbatim>\<open>cut\<close> does with a fragment, once the signals of
  the group hold the data of that fragment: leave the loop, go on to the next fragment, or
  write a master and the signals cut to it.
\<close>

datatype 'v piece = PBreak | PSkip | PEmit "rat list" "'v signal list"

definition piece ::
  "('v signal \<Rightarrow> rat \<Rightarrow> 'v \<times> bool) \<Rightarrow> rat option \<Rightarrow> rat option \<Rightarrow> bool \<Rightarrow> 'v fragment \<Rightarrow> 'v piece" where
  "piece interp start stop include_ends sigs =
     (if master sigs = [] then PSkip
      else
        (case fragment_window start stop (master sigs) of
           WBreak \<Rightarrow> PBreak
         | WContinue \<Rightarrow> PSkip
         | Window fragment_start fragment_stop needs_cutting \<Rightarrow>
             if needs_cutting then
               (let m' = cut_times include_ends fragment_start fragment_stop (master sigs)
                in if m' = [] then PSkip
                   else PEmit m' (map (Signal_cut interp (Some (hd m')) (Some (last m')) include_ends)
                                      (first_signals sigs)))
             else PEmit (master sigs) (first_signals sigs)))"

text \<open>The pieces written for the fragments of one group, up to the first \<^verbatim>\<open>break\<close>.\<close>

definition emitted ::
  "('v signal \<Rightarrow> rat \<Rightarrow> 'v \<times> bool) \<Rightarrow> rat option \<Rightarrow> rat option \<Rightarrow> bool \<Rightarrow> 'v fragment list \<Rightarrow>
   (rat list \<times> 'v signal list) list" where
  "emitted interp start stop include_ends frs =
     concat (map (\<lambda>f. case piece interp start stop include_ends f of
                          PEmit m sigs \<Rightarrow> [(m, sigs)] | PBreak \<Rightarrow> [] | PSkip \<Rightarrow> [])
                 (takeWhile (\<lambda>f. piece interp start stop include_ends f \<noteq> PBreak) frs))"

text \<open>
  The output group built from the written pieces: the first is appended, every later one
  extends it.
\<close>

definition first_group :: "nat \<Rightarrow> 'v signal list \<Rightarrow> 'v out_group" where
  "first_group key sigs =
     \<lparr>og_source = key,
      og_master = (case sigs of [] \<Rightarrow> [] | sig # _ \<Rightarrow> timestamps sig),
      og_columns = signal_columns sigs\<rparr>"

definition ext :: "rat list \<times> 'v signal list \<Rightarrow> 'v out_group \<Rightarrow> 'v out_group" where
  "ext e og = extend_group og (fst e) (signal_columns (snd e))"

definition build :: "nat \<Rightarrow> (rat list \<times> 'v signal list) list \<Rightarrow> 'v out_group list" where
  "build key es =
     (case es of [] \<Rightarrow> [] | e # rest \<Rightarrow> [fold ext rest (first_group key (snd e))])"

text \<open>
  A group with zero cycles: no time stamp, no sample and no invalidation bit in any of its
  \<open>n\<close> channels.
\<close>

definition zero_group :: "nat \<Rightarrow> nat \<Rightarrow> 'v out_group \<Rightarrow> bool" where
  "zero_group key n og =
     (og_source og = key \<and> og_master og = [] \<and> length (og_columns og) = n \<and>
      list_all (\<lambda>c. fst c = [] \<and> (snd c = None \<or> snd c = Some [])) (og_columns og))"

text \<open>Every fragment that the reader yields for a group carries one column per included channel.\<close>

definition shaped_group :: "'v vgroup \<Rightarrow> bool" where
  "shaped_group g = list_all (\<lambda>f. length (columns f) = length (channel_names g)) (fragments g)"

text \<open>
  The groups that \<^verbatim>\<open>cut\<close> writes for one virtual group: none for a group without
  included channels or without fragments, one built from the written pieces, or one with
  zero cycles when no piece was written.
\<close>

definition group_result ::
  "('v signal \<Rightarrow> rat \<Rightarrow> 'v \<times> bool) \<Rightarrow> rat option \<Rightarrow> rat option \<Rightarrow> bool \<Rightarrow> 'v vgroup \<Rightarrow>
   'v out_group list \<Rightarrow> bool" where
  "group_result interp start stop include_ends g G =
     (if channel_names g = [] then G = []
      else if emitted interp start stop include_ends (fragments g) \<noteq> []
      then G = build (vg_key g) (emitted interp start stop include_ends (fragments g))
      else if fragments g = [] then G = []
      else (\<exists>og. G = [og] \<and> zero_group (vg_key g) (length (channel_names g)) og))"


text \<open>
  Modelled from the spec: a file written by \<^verbatim>\<open>append\<close> and \<^verbatim>\<open>extend\<close> and read back. The
  reader (\<^verbatim>\<open>_yield_selected_signals\<close>, defined with the version-specific engines outside
  \<^verbatim>\<open>mdf.py\<close>) yields the records of a stored group in their order, as one fragment or
  more, each with one column per channel and one sample per time stamp.
\<close>

definition stored_as :: "'v vgroup \<Rightarrow> 'v out_group \<Rightarrow> bool" where
  "stored_as g og =
     (length (channel_names g) = length (og_columns og) \<and> fragments g \<noteq> [] \<and>
      list_all (\<lambda>f. length (columns f) = length (og_columns og) \<and>
                     list_all (\<lambda>c. length (fst c) = length (master f)) (columns f))
               (fragments g) \<and>
      concat (map master (fragments g)) = og_master og \<and>
      list_all (\<lambda>i. concat (map (\<lambda>f. fst (columns f ! i)) (fragments g)) = fst (og_columns og ! i))
               [0..<length (og_columns og)])"

text \<open>Two groups with the same time stamps and, channel by channel, the same samples.\<close>

definition same_values :: "'v out_group \<Rightarrow> 'v out_group \<Rightarrow> bool" where
  "same_values a b = (og_master a = og_master b \<and> map fst (og_columns a) = map fst (og_columns b))"

subsection \<open>\<^verbatim>\<open>MDF.extract_bus_logging\<close>: the summary of the CAN extraction\<close>

text \<open>
  A record of a bus logging group, as far as the summary reads it: the channels
  \<^verbatim>\<open>CAN_DataFrame.BusChannel\<close> (cast to \<^verbatim>\<open><u1\<close>) and \<^verbatim>\<open>CAN_DataFrame.ID\<close> (cast to
  \<^verbatim>\<open><u4\<close>). A group carries the three facts tested at the head of the loop, the size of
  its record and the fragments that \<^verbatim>\<open>_load_data\<close> yields.
\<close>

record can_frame =
  BusChannel :: "8 word"
  ID :: "32 word"

record bus_group =
  bus_event :: bool
  bus_type_can :: bool
  has_dataframe :: bool
  itemsize :: nat
  frames :: "can_frame list list"

text \<open>
  A message of a catalog (\<^verbatim>\<open>message.arbitration_id.id\<close>, \<^verbatim>\<open>message.arbitration_id.pgn\<close>,
  \<^verbatim>\<open>message.name\<close>) and a loaded catalog (\<^verbatim>\<open>dbc.contains_j1939\<close> and its messages in
  iteration order).
\<close>

record can_message =
  arbitration_id :: int
  arbitration_pgn :: int
  message_name :: string

record can_database =
  contains_j1939 :: bool
  db_messages :: "can_message list"

text \<open>
  Python dictionaries as association lists in insertion order with distinct keys:
  \<open>dict_update k f\<close> replaces the value at \<open>k\<close> by \<open>f\<close> of the old value (\<open>None\<close> when the key
  is new). It gives \<^verbatim>\<open>d[k] = v\<close>, and on a \<^verbatim>\<open>defaultdict\<close> \<^verbatim>\<open>d[k].append(b)\<close> and
  \<^verbatim>\<open>d[k].add(x)\<close>.
\<close>

fun dict_update :: "'k \<Rightarrow> ('v option \<Rightarrow> 'v) \<Rightarrow> ('k \<times> 'v) list \<Rightarrow> ('k \<times> 'v) list" where
  "dict_update k f [] = [(k, f None)]"
| "dict_update k f ((k', v) # d) =
     (if k = k' then (k', f (Some v)) # d else (k', v) # dict_update k f d)"

definition dict_append :: "'k \<Rightarrow> 'b \<Rightarrow> ('k \<times> 'b list) list \<Rightarrow> ('k \<times> 'b list) list" where
  "dict_append k b d = dict_update k (\<lambda>old. (case old of None \<Rightarrow> [] | Some bs \<Rightarrow> bs) @ [b]) d"

definition dict_add :: "'k \<Rightarrow> 'x \<Rightarrow> ('k \<times> 'x set) list \<Rightarrow> ('k \<times> 'x set) list" where
  "dict_add k x d = dict_update k (\<lambda>old. insert x (case old of None \<Rightarrow> {} | Some xs \<Rightarrow> xs)) d"

text \<open>
  \<^verbatim>\<open>messages = {message.arbitration_id.pgn: message for message in dbc}\<close> for a J1939
  catalog, keyed by \<^verbatim>\<open>message.arbitration_id.id\<close> otherwise; the name stands for the
  message.
\<close>

definition messages :: "can_database \<Rightarrow> (int \<times> string) list" where
  "messages dbc =
     fold (\<lambda>message. dict_update
              (if contains_j1939 dbc then arbitration_pgn message else arbitration_id message)
              (\<lambda>old. message_name message))
          (db_messages dbc) []"

text \<open>
  The PGN of a 29-bit identifier, as the source folds it:
  \<^verbatim>\<open>tmp_pgn = id >> 8\<close>, \<^verbatim>\<open>ps = tmp_pgn & 0xFF\<close>, \<^verbatim>\<open>pf = (id >> 16) & 0xFF\<close>,
  \<^verbatim>\<open>_pgn = tmp_pgn & 0x3FF00\<close>, and \<^verbatim>\<open>np.where(pf >= 240, _pgn + ps, _pgn)\<close>.
\<close>

definition j1939_pgn :: "32 word \<Rightarrow> 32 word" where
  "j1939_pgn msg_id =
     (let tmp_pgn = drop_bit 8 msg_id;
          ps = tmp_pgn AND 255;
          pf = drop_bit 16 msg_id AND 255;
          pgn = tmp_pgn AND 261888
      in if pf \<ge> 240 then pgn + ps else pgn)"

text \<open>
  The variables of \<^verbatim>\<open>_extract_can_logging\<close> that make the summary:
  \<^verbatim>\<open>total_unique_ids\<close> (a set of pairs), \<^verbatim>\<open>found_ids\<close> (a \<^verbatim>\<open>defaultdict(set)\<close> by catalog
  name), \<^verbatim>\<open>not_found_ids\<close>, \<^verbatim>\<open>unknown_ids\<close> (a \<^verbatim>\<open>defaultdict(list)\<close> by identifier) and
  the \<^verbatim>\<open>current_not_found_ids\<close> of the catalog at hand.
\<close>

record can_state =
  total_unique_ids :: "(int \<times> int) set"
  found_ids :: "(string \<times> (int \<times> string) set) list"
  not_found_ids :: "(string \<times> (int \<times> string) set) list"
  unknown_ids :: "(int \<times> bool list) list"
  current_not_found_ids :: "(int \<times> string) set"

text \<open>
  The body of \<^verbatim>\<open>for msg_id_record in unique_ids\<close>, up to the decoding of the payload
  (\<^verbatim>\<open>extract_mux\<close> and the writing of the output file do not touch the summary and are
  not modelled).
\<close>

definition id_step :: "(int \<times> string) list \<Rightarrow> string \<Rightarrow> int \<times> int \<Rightarrow> can_state \<Rightarrow> can_state" where
  "id_step msgs dbc_name msg_id_record s =
     (let msg_id = fst msg_id_record
      in case map_of msgs msg_id of
           None \<Rightarrow> s\<lparr>unknown_ids := dict_append msg_id True (unknown_ids s)\<rparr>
         | Some name \<Rightarrow>
             s\<lparr>found_ids := dict_add dbc_name (msg_id, name) (found_ids s),
               current_not_found_ids := current_not_found_ids s - {(msg_id, name)},
               unknown_ids := dict_append msg_id False (unknown_ids s)\<rparr>)"

text \<open>
  The body of \<^verbatim>\<open>for bus in buses\<close>. A row is a record of the fragment as
  \<open>(bus, msg_id, original_id)\<close>; \<^verbatim>\<open>np.unique\<close> gives the distinct pairs in ascending
  order.
\<close>

definition bus_step ::
  "bool \<Rightarrow> bool \<Rightarrow> (int \<times> string) list \<Rightarrow> string \<Rightarrow> int \<Rightarrow> (8 word \<times> 32 word \<times> 32 word) list \<Rightarrow>
   8 word \<Rightarrow> can_state \<Rightarrow> can_state" where
  "bus_step is_j1939 consolidated_j1939 msgs dbc_name bus_channel rows bus s =
     (if bus_channel \<noteq> 0 \<and> uint bus \<noteq> bus_channel then s
      else
        let idx = filter (\<lambda>row. fst row = bus) rows;
            unique_ids =
              sort (remdups (map (\<lambda>(b, msg_id, original_id).
                                     if is_j1939 \<and> \<not> consolidated_j1939
                                     then (uint msg_id, uint original_id)
                                     else (uint msg_id, uint msg_id)) idx))
        in fold (id_step msgs dbc_name) unique_ids
             (s\<lparr>total_unique_ids := total_unique_ids s \<union> set unique_ids\<rparr>))"

text \<open>The body of \<^verbatim>\<open>for fragment_index, fragment in enumerate(data)\<close> for a record of positive size.\<close>

definition fragment_step ::
  "bool \<Rightarrow> bool \<Rightarrow> (int \<times> string) list \<Rightarrow> string \<Rightarrow> int \<Rightarrow> can_frame list \<Rightarrow> can_state \<Rightarrow> can_state" where
  "fragment_step is_j1939 consolidated_j1939 msgs dbc_name bus_channel fragment s =
     (let rows = map (\<lambda>frame.
                        let original_id = ID frame AND 536870911
                        in (BusChannel frame,
                            if is_j1939 then j1939_pgn original_id else original_id,
                            original_id)) fragment;
          buses = sort (remdups (map fst rows))
      in fold (bus_step is_j1939 consolidated_j1939 msgs dbc_name bus_channel rows) buses s)"

text \<open>The body of \<^verbatim>\<open>for i, group in enumerate(self.groups)\<close>.\<close>

definition group_step ::
  "bool \<Rightarrow> bool \<Rightarrow> (int \<times> string) list \<Rightarrow> string \<Rightarrow> int \<Rightarrow> bus_group \<Rightarrow> can_state \<Rightarrow> can_state" where
  "group_step is_j1939 consolidated_j1939 msgs dbc_name bus_channel grp s =
     (if \<not> bus_event grp \<or> \<not> bus_type_can grp \<or> \<not> has_dataframe grp then s
      else if itemsize grp = 0 then s
      else fold (fragment_step is_j1939 consolidated_j1939 msgs dbc_name bus_channel)
             (frames grp) s)"

text \<open>The body of \<^verbatim>\<open>for dbc, dbc_name, bus_channel in valid_dbc_files\<close>.\<close>

definition catalog_step ::
  "bus_group list \<Rightarrow> bool \<Rightarrow> can_database \<times> string \<times> int \<Rightarrow> can_state \<Rightarrow> can_state" where
  "catalog_step groups consolidated_j1939 entry s =
     (case entry of (dbc, dbc_name, bus_channel) \<Rightarrow>
        let msgs = messages dbc;
            s1 = fold (group_step (contains_j1939 dbc) consolidated_j1939 msgs dbc_name bus_channel)
                   groups (s\<lparr>current_not_found_ids := set msgs\<rparr>)
        in if current_not_found_ids s1 \<noteq> {}
           then s1\<lparr>not_found_ids :=
                     dict_update dbc_name (\<lambda>old. current_not_found_ids s1) (not_found_ids s1)\<rparr>
           else s1)"

text \<open>
  The entry \<^verbatim>\<open>last_call_info["CAN"]\<close>. A catalog given by a file name is loaded with
  \<^verbatim>\<open>load_can_database\<close>; an entry of \<open>dbc_files\<close> holds the result (\<open>None\<close> when the file
  cannot be loaded, and the entry is dropped), the name under which it is listed, and the
  bus channel.
\<close>

record can_info =
  info_total_unique_ids :: "(int \<times> int) set"
  info_unknown_id_count :: nat
  info_not_found_ids :: "(string \<times> (int \<times> string) set) list"
  info_found_ids :: "(string \<times> (int \<times> string) set) list"
  info_unknown_ids :: "int set"

definition valid_dbc_files ::
  "(can_database option \<times> string \<times> int) list \<Rightarrow> (can_database \<times> string \<times> int) list" where
  "valid_dbc_files dbc_files =
     List.map_filter (\<lambda>(dbc, dbc_name, bus_channel).
                        map_option (\<lambda>d. (d, dbc_name, bus_channel)) dbc) dbc_files"

definition extract_can_logging ::
  "bus_group list \<Rightarrow> (can_database option \<times> string \<times> int) list \<Rightarrow> bool \<Rightarrow> can_info" where
  "extract_can_logging groups dbc_files consolidated_j1939 =
     (let s = fold (catalog_step groups consolidated_j1939) (valid_dbc_files dbc_files)
                \<lparr>total_unique_ids = {}, found_ids = [], not_found_ids = [], unknown_ids = [],
                 current_not_found_ids = {}\<rparr>;
          unknown = set (map fst (filter (\<lambda>(msg_id, not_found). list_all (\<lambda>b. b) not_found)
                                         (unknown_ids s)))
      in \<lparr>info_total_unique_ids = total_unique_ids s,
          info_unknown_id_count = card unknown,
          info_not_found_ids = not_found_ids s,
          info_found_ids = found_ids s,
          info_unknown_ids = unknown\<rparr>)"

text \<open>
  \<^verbatim>\<open>extract_bus_logging\<close> empties \<^verbatim>\<open>last_call_info\<close> and runs the CAN extraction when
  \<^verbatim>\<open>database_files\<close> lists a catalog for \<^verbatim>\<open>"CAN"\<close>; the result is the \<^verbatim>\<open>"CAN"\<close> entry
  of \<^verbatim>\<open>last_call_info\<close>, if any.
\<close>

definition extract_bus_logging ::
  "bus_group list \<Rightarrow> (can_database option \<times> string \<times> int) list \<Rightarrow> bool \<Rightarrow> can_info option" where
  "extract_bus_logging groups can_files consolidated_j1939 =
     (if can_files = [] then None
      else Some (extract_can_logging groups can_files consolidated_j1939))"

text \<open>
  The count of matched identifiers that the summary dialog shows
  (\<^verbatim>\<open>sum(len(e) for e in call_info["found_ids"].values())\<close> in \<^verbatim>\<open>gui/widgets/file.py\<close>).
\<close>

definition found_id_count :: "can_info \<Rightarrow> nat" where
  "found_id_count info = sum_list (map (\<lambda>(dbc_name, found). card found) (info_found_ids info))"

text \<open>The identifiers that the summary lists as found in the catalog \<open>dbc_name\<close>.\<close>

definition found_for :: "string \<Rightarrow> can_info \<Rightarrow> (int \<times> string) set" where
  "found_for dbc_name info =
     (case map_of (info_found_ids info) dbc_name of None \<Rightarrow> {} | Some found \<Rightarrow> found)"

text \<open>
  The state of the summary while the only catalog is processed, in terms of the pairs seen
  so far: the found identifiers are those first components that the catalog knows, every
  first component has a non-empty list of flags in \<^verbatim>\<open>unknown_ids\<close>, each flag telling
  that the catalog does not know it. \<open>strict\<close> holds when the pairs repeat the identifier.
\<close>

definition summary_inv :: "(int \<times> string) list \<Rightarrow> string \<Rightarrow> bool \<Rightarrow> can_state \<Rightarrow> bool" where
  "summary_inv msgs dbc_name strict s =
     (finite (total_unique_ids s) \<and>
      found_ids s =
        (let F = {(k, n). k \<in> fst ` total_unique_ids s \<and> map_of msgs k = Some n}
         in if F = {} then [] else [(dbc_name, F)]) \<and>
      fst ` set (unknown_ids s) = fst ` total_unique_ids s \<and>
      (\<forall>(k, nf) \<in> set (unknown_ids s). nf \<noteq> [] \<and> (\<forall>b \<in> set nf. b = (map_of msgs k = None))) \<and>
      (strict \<longrightarrow> (\<forall>p \<in> total_unique_ids s. snd p = fst p)))"

text \<open>
  Well-formed input of \<^verbatim>\<open>concatenate\<close> in general: a group with included channels has
  distinct channel names and yields at least one item, every item well-formed with one
  column for each channel; the virtual groups of a file are keyed by their position.
\<close>

definition wf_group :: "'v vgroup \<Rightarrow> bool" where
  "wf_group g =
     (distinct (channel_names g) \<and>
      (channel_names g \<noteq> [] \<longrightarrow>
         fragments g \<noteq> [] \<and>
         list_all (\<lambda>fr. wf_fragment fr \<and> length (columns fr) = length (channel_names g))
                  (fragments g)))"

definition wf_file :: "'v mdf \<Rightarrow> bool" where
  "wf_file file =
     (map vg_key (vgroups file) = [0..<length (vgroups file)] \<and> list_all wf_group (vgroups file))"

text \<open>
  The state after the first file, as the later files need it: the channel names and the
  number of groups of the first file, and a group of \<^verbatim>\<open>merged\<close> for every group of the
  first file that has included channels.
\<close>

definition first_merged :: "'v mdf \<Rightarrow> 'v cat_state \<Rightarrow> bool" where
  "first_merged first st =
     (ct_names st = map channel_names (vgroups first) \<and>
      ct_groups_nr st = length (vgroups first) \<and>
      (\<forall>j < length (vgroups first).
          channel_names (vgroups first ! j) \<noteq> [] \<longrightarrow> j \<in> dom (ct_cg_map st)))"

subsection \<open>\<^verbatim>\<open>MDF.select\<close> and \<^verbatim>\<open>MDF.resample\<close>\<close>

text \<open>
  The loop of \<^verbatim>\<open>select\<close> over the fragments of one virtual group: the first item gives
  the signals and the master, every later item is written behind them (the arrays are
  allocated for \<^verbatim>\<open>cycles_nr\<close> records, taken here to be the records that the fragments
  hold). Bits assigned from \<^verbatim>\<open>None\<close> read as \<open>False\<close>.
\<close>

fun select_fragments ::
  "nat \<Rightarrow> 'v signal list \<Rightarrow> rat list \<Rightarrow> 'v fragment list \<Rightarrow> 'v signal list \<times> rat list" where
  "select_fragments idx signals m [] = (signals, m)"
| "select_fragments idx signals m (sigs # rest) =
     (if idx = 0 then
        (if columns sigs = [] then (signals, m)
         else select_fragments 1 (first_signals sigs) (master sigs) rest)
      else
        select_fragments (Suc idx)
          (map (\<lambda>(signal, (s, inval)).
                  signal\<lparr>samples := samples signal @ s,
                         invalidation_bits :=
                           (case invalidation_bits signal of
                              None \<Rightarrow> None
                            | Some bits \<Rightarrow>
                                Some (bits @ (case inval of
                                                None \<Rightarrow> replicate (length s) False
                                              | Some b \<Rightarrow> b)))\<rparr>)
               (zip signals (columns sigs))
           @ drop (length (columns sigs)) signals)
          (m @ master sigs) rest)"

text \<open>
  \<^verbatim>\<open>select(channels, raw=True)\<close> for the included channels of one virtual group, as
  \<^verbatim>\<open>resample\<close> calls it. Every signal gets the master as time stamps; a channel for
  which the reader gave no signal is missing in \<^verbatim>\<open>output_signals\<close>, and the subscript
  raises \<^verbatim>\<open>KeyError\<close>. Without channels the result is empty.
\<close>

definition select_group :: "'v vgroup \<Rightarrow> py_error + 'v signal list" where
  "select_group g =
     (if channel_names g = [] then Inr []
      else
        let r = select_fragments 0 [] [] (fragments g)
        in if length (fst r) < length (channel_names g) then Inl KeyError
           else Inr (map (\<lambda>signal. signal\<lparr>timestamps := snd r\<rparr>)
                         (take (length (channel_names g)) (fst r))))"

text \<open>
  Modelled from the spec: \<^verbatim>\<open>Signal.interp(new_timestamps, ...)\<close> is defined in
  \<^verbatim>\<open>asammdf/signal.py\<close>, outside the given sources. The channel is re-interpolated onto
  the raster: the result has the raster as time stamps and one sample for each of them,
  the value and the invalidation bit given by the parameter \<open>interp\<close>.
\<close>

definition Signal_interp ::
  "('v signal \<Rightarrow> rat \<Rightarrow> 'v \<times> bool) \<Rightarrow> 'v signal \<Rightarrow> rat list \<Rightarrow> 'v signal" where
  "Signal_interp interp sig new_timestamps =
     \<lparr>samples = map (\<lambda>t. fst (interp sig t)) new_timestamps,
      timestamps = new_timestamps,
      invalidation_bits =
        map_option (\<lambda>bits. map (\<lambda>t. snd (interp sig t)) new_timestamps) (invalidation_bits sig)\<rparr>"

text \<open>
  The \<^verbatim>\<open>raster\<close> argument: a number, a string, a Python sequence or a numpy array.
\<close>

datatype raster_arg = Number rat | Name string | Sequence "rat list" | NdArray "rat list"

text \<open>
  The raster of \<^verbatim>\<open>resample\<close>:
  \<^verbatim>\<open>try: raster = float(raster); assert raster > 0\<close>, with \<^verbatim>\<open>TypeError\<close> and
  \<^verbatim>\<open>ValueError\<close> caught. \<^verbatim>\<open>float\<close> accepts a number, a string that spells one
  (\<open>float_of_str\<close>, Python's parser, is a parameter) and a numpy array with a single
  element; it raises \<^verbatim>\<open>TypeError\<close> for other arrays and for sequences and
  \<^verbatim>\<open>ValueError\<close> for other strings. When it succeeds the raster is
  \<^verbatim>\<open>master_using_raster(self, raster)\<close> (defined in \<^verbatim>\<open>blocks/utils.py\<close>, a parameter
  here) and a failed assertion is not caught; otherwise a string names a channel, whose
  time stamps \<^verbatim>\<open>self.get(raster).timestamps\<close> (\<open>get_timestamps\<close>, a parameter) are the
  raster, and anything else is the raster itself.
\<close>

definition resample_raster ::
  "(string \<Rightarrow> rat option) \<Rightarrow> ('v mdf \<Rightarrow> rat \<Rightarrow> rat list) \<Rightarrow> (string \<Rightarrow> py_error + rat list) \<Rightarrow>
   'v mdf \<Rightarrow> raster_arg \<Rightarrow> py_error + rat list" where
  "resample_raster float_of_str master_using_raster get_timestamps self raster =
     (let step = (\<lambda>r. if r > 0 then Inr (master_using_raster self r) else Inl AssertionError)
      in case raster of
           Number r \<Rightarrow> step r
         | Name s \<Rightarrow> (case float_of_str s of Some r \<Rightarrow> step r | None \<Rightarrow> get_timestamps s)
         | Sequence xs \<Rightarrow> Inr xs
         | NdArray xs \<Rightarrow> (case xs of [x] \<Rightarrow> step x | _ \<Rightarrow> Inr xs))"

text \<open>The body of the loop of \<^verbatim>\<open>resample\<close> over the virtual groups, up to \<^verbatim>\<open>mdf.append\<close>.\<close>

definition resample_group ::
  "('v signal \<Rightarrow> rat \<Rightarrow> 'v \<times> bool) \<Rightarrow> rat list \<Rightarrow> rat list option \<Rightarrow> 'v vgroup \<Rightarrow>
   'v out_group list \<Rightarrow> py_error + 'v out_group list" where
  "resample_group interp raster new_raster g out =
     (case select_group g of
        Inl e \<Rightarrow> Inl e
      | Inr sigs \<Rightarrow>
          let sigs1 = map (\<lambda>sig. Signal_interp interp sig raster) sigs;
              sigs2 = (case new_raster of
                         None \<Rightarrow> sigs1
                       | Some shifted \<Rightarrow>
                           map (\<lambda>sig. if samples sig \<noteq> [] then sig\<lparr>timestamps := shifted\<rparr> else sig)
                               sigs1)
          in Inr (snd (append_group (vg_key g) sigs2 out)))"

fun resample_groups ::
  "('v signal \<Rightarrow> rat \<Rightarrow> 'v \<times> bool) \<Rightarrow> rat list \<Rightarrow> rat list option \<Rightarrow> (nat \<Rightarrow> bool) \<Rightarrow> nat \<Rightarrow>
   'v vgroup list \<Rightarrow> 'v out_group list \<Rightarrow> py_error + 'v out_group list option" where
  "resample_groups interp raster new_raster terminate i [] out = Inr (Some out)"
| "resample_groups interp raster new_raster terminate i (g # gs) out =
     (case resample_group interp raster new_raster g out of
        Inl e \<Rightarrow> Inl e
      | Inr out' \<Rightarrow>
          if terminate i then Inr None
          else resample_groups interp raster new_raster terminate (Suc i) gs out')"

text \<open>
  \<^verbatim>\<open>MDF.resample(raster, version, time_from_zero)\<close>: the raised exception, \<open>None\<close> for
  the bare \<^verbatim>\<open>return\<close> on the terminate flag, or the groups of the new file.
\<close>

definition resample ::
  "(string \<Rightarrow> rat option) \<Rightarrow> ('v mdf \<Rightarrow> rat \<Rightarrow> rat list) \<Rightarrow> (string \<Rightarrow> py_error + rat list) \<Rightarrow>
   ('v signal \<Rightarrow> rat \<Rightarrow> 'v \<times> bool) \<Rightarrow> (nat \<Rightarrow> bool) \<Rightarrow> 'v mdf \<Rightarrow> raster_arg \<Rightarrow> bool \<Rightarrow>
   py_error + 'v out_group list option" where
  "resample float_of_str master_using_raster get_timestamps interp terminate self raster
     time_from_zero =
     (case resample_raster float_of_str master_using_raster get_timestamps self raster of
        Inl e \<Rightarrow> Inl e
      | Inr r \<Rightarrow>
          let new_raster = (if time_from_zero \<and> r \<noteq> [] then Some (map (\<lambda>t. t - hd r) r) else None)
          in resample_groups interp r new_raster terminate 0 (vgroups self) [])"

section \<open>Verified properties\<close>

subsection \<open>\<^verbatim>\<open>whereis\<close>\<close>

text \<open>
  C10. For a channel name absent from \<^verbatim>\<open>channels_db\<close>, \<^verbatim>\<open>whereis\<close> returns the empty
  tuple and raises nothing; for a name that is present it returns the occurrences that
  pass the source and acquisition filters, in their order; in both cases the index is left
  as it was.
\<close>

theorem whereis_total:
  "(\<not> mdf_contains db channel \<longrightarrow>
      whereis meta db channel source_name source_path acq_name = (Inr [], db)) \<and>
   (\<forall>occs. db channel = Some occs \<longrightarrow>
      whereis meta db channel source_name source_path acq_name =
        (Inr (filter (\<lambda>occ. passes (meta occ) source_name source_path acq_name) occs), db)) \<and>
   snd (whereis meta db channel source_name source_path acq_name) = db"
  by (cases "db channel")
     (simp_all add: whereis_def db_getitem_def mdf_contains_def filter_occurrences_def)

theorem whereis_total_witness:
  "\<not> mdf_contains [''VehicleSpeed'' \<mapsto> [(1, 2), (2, 4)]] ''VehicleSPD'' \<and>
   whereis (\<lambda>occ. \<lparr>om_source_name = None, om_source_path = None,
                    om_acq_name = (if fst occ = 1 then Some ''A'' else Some ''B'')\<rparr>)
      [''VehicleSpeed'' \<mapsto> [(1, 2), (2, 4)]] ''VehicleSPD'' None None None
     = (Inr [], [''VehicleSpeed'' \<mapsto> [(1, 2), (2, 4)]]) \<and>
   whereis (\<lambda>occ. \<lparr>om_source_name = None, om_source_path = None,
                    om_acq_name = (if fst occ = 1 then Some ''A'' else Some ''B'')\<rparr>)
      [''VehicleSpeed'' \<mapsto> [(1, 2), (2, 4)]] ''VehicleSpeed'' None None (Some ''B'')
     = (Inr [(2, 4)], [''VehicleSpeed'' \<mapsto> [(1, 2), (2, 4)]])"
  using whereis_total [of "[''VehicleSpeed'' \<mapsto> [(1, 2), (2, 4)]]" "''VehicleSPD''"
      "\<lambda>occ. \<lparr>om_source_name = None, om_source_path = None,
               om_acq_name = (if fst occ = 1 then Some ''A'' else Some ''B'')\<rparr>" None None None]
    whereis_total [of "[''VehicleSpeed'' \<mapsto> [(1, 2), (2, 4)]]" "''VehicleSpeed''"
      "\<lambda>occ. \<lparr>om_source_name = None, om_source_path = None,
               om_acq_name = (if fst occ = 1 then Some ''A'' else Some ''B'')\<rparr>" None None "Some ''B''"]
  by (simp add: mdf_contains_def passes_def)

subsection \<open>The terminate flag\<close>

lemma copy_groups_terminated:
  "k < length gs \<Longrightarrow> terminate (i + k) \<Longrightarrow> copy_groups terminate i gs out = None"
proof (induction gs arbitrary: i k out)
  case Nil
  then show ?case by simp
next
  case (Cons g gs)
  show ?case
  proof (cases k)
    case 0
    with Cons.prems show ?thesis by (simp add: Let_def)
  next
    case (Suc k')
    with Cons.prems have "k' < length gs" "terminate (Suc i + k')" by simp_all
    then have "copy_groups terminate (Suc i) gs (copy_fragments (vg_key g) 0 0 (fragments g) out) = None"
      by (rule Cons.IH)
    then show ?thesis by (simp add: Let_def)
  qed
qed

lemma cut_groups_terminated:
  "k < length gs \<Longrightarrow> channel_names (gs ! k) \<noteq> [] \<Longrightarrow> terminate (i + k) \<Longrightarrow>
   cut_groups interp start stop include_ends tfz delta terminate i gs s = None"
proof (induction gs arbitrary: i k s)
  case Nil
  then show ?case by simp
next
  case (Cons g gs)
  show ?case
  proof (cases k)
    case 0
    with Cons.prems show ?thesis by (simp add: Let_def)
  next
    case (Suc k')
    with Cons.prems have *: "k' < length gs" "channel_names (gs ! k') \<noteq> []" "terminate (Suc i + k')"
      by simp_all
    have "cut_groups interp start stop include_ends tfz delta terminate (Suc i) gs s' = None" for s'
      using * by (rule Cons.IH)
    then show ?thesis by (simp add: Let_def)
  qed
qed

lemma stack_files_terminated:
  "k < length fs \<Longrightarrow> terminate (i + k) \<Longrightarrow> fst (stack_files terminate sync i fs stacked) = Inr None"
proof (induction fs arbitrary: i k stacked)
  case Nil
  then show ?case by simp
next
  case (Cons f fs)
  obtain offset mdf where f: "f = (offset, mdf)" by (cases f)
  show ?case
  proof (cases k)
    case 0
    with Cons.prems show ?thesis by (simp add: f Let_def)
  next
    case (Suc k')
    with Cons.prems have *: "k' < length fs" "terminate (Suc i + k')" by simp_all
    have "fst (stack_files terminate sync (Suc i) fs stacked') = Inr None" for stacked'
      using * by (rule Cons.IH)
    then show ?thesis by (simp add: f Let_def split: prod.splits) (metis fst_conv)
  qed
qed

lemma cat_files_terminated:
  "k < length fs \<Longrightarrow> terminate (i + k) \<Longrightarrow>
   fst (cat_files origin aso dtc terminate i fs st) \<noteq> Inr (Some merged)"
proof (induction fs arbitrary: i k st)
  case Nil
  then show ?case by simp
next
  case (Cons f fs)
  obtain offset mdf where f: "f = (offset, mdf)" by (cases f)
  obtain r mdf' where c: "cat_file origin aso dtc i offset mdf st = (r, mdf')"
    by (cases "cat_file origin aso dtc i offset mdf st")
  show ?case
  proof (cases r)
    case (Inl e)
    then show ?thesis by (simp add: f c)
  next
    case (Inr st2)
    show ?thesis
    proof (cases k)
      case 0
      with Cons.prems show ?thesis by (simp add: f c Inr)
    next
      case (Suc k')
      with Cons.prems have *: "k' < length fs" "terminate (Suc i + k')" by simp_all
      have "fst (cat_files origin aso dtc terminate (Suc i) fs st2) \<noteq> Inr (Some merged)"
        using * by (rule Cons.IH)
      then show ?thesis by (auto simp add: f c Inr split: prod.splits)
    qed
  qed
qed


text \<open>
  C8, as amended. When the terminate flag is set at the time it is read at the end of
  iteration \<open>k\<close>: \<^verbatim>\<open>convert\<close> and \<^verbatim>\<open>filter\<close> read it after every virtual group and
  return \<open>None\<close>; \<^verbatim>\<open>cut\<close> reads it after every virtual group that has included
  channels and returns \<open>None\<close> (unless it has already raised for \<^verbatim>\<open>time_from_zero\<close>
  without a start); \<^verbatim>\<open>stack\<close> reads it after every file and returns \<open>None\<close>;
  \<^verbatim>\<open>concatenate\<close> reads it after every file and returns no file: the result is
  \<open>None\<close>, or an exception that one of the files read so far raised.
\<close>

theorem terminate_gives_no_result:
  "(k < length (vgroups self) \<and> terminate k \<longrightarrow> fst (convert terminate self) = Inr None) \<and>
   (included_channels self channels = Inr gps \<and> k < length gps \<and> terminate k \<longrightarrow>
      fst (filter_mdf included_channels terminate self channels) = Inr None) \<and>
   (k < length (vgroups self) \<and> channel_names (vgroups self ! k) \<noteq> [] \<and> terminate k \<and>
    \<not> (time_from_zero \<and> start = None) \<longrightarrow>
      fst (cut interp terminate self start stop whence include_ends time_from_zero) = Inr None) \<and>
   (k < length files \<and> terminate k \<longrightarrow> fst (stack terminate files sync) = Inr None) \<and>
   (k < length files \<and> terminate k \<longrightarrow>
      (\<forall>merged. fst (concatenate origin terminate files sync add_samples_origin
                       direct_timestamp_continuation) \<noteq> Inr (Some merged)))"
proof (intro conjI impI)
  assume "k < length (vgroups self) \<and> terminate k"
  then have "copy_groups terminate 0 (vgroups self) [] = None"
    using copy_groups_terminated [of k "vgroups self" terminate 0] by simp
  then show "fst (convert terminate self) = Inr None"
    by (simp add: convert_def)
next
  assume "included_channels self channels = Inr gps \<and> k < length gps \<and> terminate k"
  then have "included_channels self channels = Inr gps" "copy_groups terminate 0 gps [] = None"
    using copy_groups_terminated [of k gps terminate 0] by simp_all
  then show "fst (filter_mdf included_channels terminate self channels) = Inr None"
    by (simp add: filter_mdf_def)
next
  assume a: "k < length (vgroups self) \<and> channel_names (vgroups self ! k) \<noteq> [] \<and> terminate k \<and>
    \<not> (time_from_zero \<and> start = None)"
  have "cut_groups interp start' stop' include_ends time_from_zero delta terminate 0 (vgroups self) s
        = None" for start' stop' delta s
    using a cut_groups_terminated [of k "vgroups self" terminate 0] by simp
  moreover have "\<not> (time_from_zero \<and>
      (if whence = 1 then map_option (\<lambda>a. a + first_timestamp self) start else start) = None)"
    using a by auto
  ultimately show "fst (cut interp terminate self start stop whence include_ends time_from_zero)
      = Inr None"
    by (simp add: cut_def Let_def)
next
  assume a: "k < length files \<and> terminate k"
  then have "files \<noteq> []" by auto
  moreover have "fst (stack_files terminate sync 0 (zip offsets files) []) = Inr None"
    if "length offsets = length files" for offsets
    using a that stack_files_terminated [of k "zip offsets files" terminate 0] by simp
  ultimately show "fst (stack terminate files sync) = Inr None"
    by (simp add: stack_def Let_def)
next
  assume a: "k < length files \<and> terminate k"
  then have ne: "files \<noteq> []" by auto
  have "fst (cat_files origin add_samples_origin direct_timestamp_continuation terminate 0
               (zip offsets files) st) \<noteq> Inr (Some merged)"
    if "length offsets = length files" for offsets st merged
    using a that cat_files_terminated [of k "zip offsets files" terminate 0] by simp
  then show "\<forall>merged. fst (concatenate origin terminate files sync add_samples_origin
      direct_timestamp_continuation) \<noteq> Inr (Some merged)"
    using ne by (simp add: concatenate_def Let_def)
qed

theorem terminate_gives_no_result_witness:
  "fst (convert (\<lambda>i. True)
          \<lparr>vgroups = [\<lparr>vg_key = 0, channel_names = [''S''],
                       fragments = [\<lparr>master = [0, 1], columns = [([5, 6 :: int], None)]\<rparr>]\<rparr>],
           start_time = 0, copy_on_get = True\<rparr>) = Inr None \<and>
   fst (filter_mdf (\<lambda>self channels. Inr (vgroups self)) (\<lambda>i. True)
          \<lparr>vgroups = [\<lparr>vg_key = 0, channel_names = [''S''],
                       fragments = [\<lparr>master = [0, 1], columns = [([5, 6 :: int], None)]\<rparr>]\<rparr>],
           start_time = 0, copy_on_get = True\<rparr> ()) = Inr None \<and>
   fst (cut (\<lambda>sig t. (0, False)) (\<lambda>i. True)
          \<lparr>vgroups = [\<lparr>vg_key = 0, channel_names = [''S''],
                       fragments = [\<lparr>master = [0, 1], columns = [([5, 6 :: int], None)]\<rparr>]\<rparr>],
           start_time = 0, copy_on_get = True\<rparr> None None 0 True False) = Inr None \<and>
   fst (stack (\<lambda>i. True)
          [\<lparr>vgroups = [\<lparr>vg_key = 0, channel_names = [''S''],
                        fragments = [\<lparr>master = [0, 1], columns = [([5, 6 :: int], None)]\<rparr>]\<rparr>],
            start_time = 0, copy_on_get = True\<rparr>] False) = Inr None \<and>
   fst (concatenate int (\<lambda>i. True)
          [\<lparr>vgroups = [\<lparr>vg_key = 0, channel_names = [''S''],
                        fragments = [\<lparr>master = [0, 1], columns = [([5, 6 :: int], None)]\<rparr>]\<rparr>],
            start_time = 0, copy_on_get = True\<rparr>] False False False) \<noteq> Inr (Some [])"
  using terminate_gives_no_result [of 0
      "\<lparr>vgroups = [\<lparr>vg_key = 0, channel_names = [''S''],
                    fragments = [\<lparr>master = [0, 1], columns = [([5, 6 :: int], None)]\<rparr>]\<rparr>],
        start_time = 0, copy_on_get = True\<rparr>"
      "\<lambda>i. True" "\<lambda>self channels. Inr (vgroups self)" "()"
      "[\<lparr>vg_key = 0, channel_names = [''S''],
         fragments = [\<lparr>master = [0, 1], columns = [([5, 6 :: int], None)]\<rparr>]\<rparr>]"
      False None "\<lambda>sig t. (0, False)" None 0 True
      "[\<lparr>vgroups = [\<lparr>vg_key = 0, channel_names = [''S''],
                     fragments = [\<lparr>master = [0, 1], columns = [([5, 6 :: int], None)]\<rparr>]\<rparr>],
         start_time = 0, copy_on_get = True\<rparr>]"
      False int False False]
  by simp

text \<open>
  The claim as stated fails for \<^verbatim>\<open>cut\<close>: with a second virtual group that has no
  included channels, a flag that is set while that group is in progress is never read, and
  the call returns the complete file.
\<close>

theorem cut_ignores_terminate_counterexample:
  "fst (cut (\<lambda>sig t. (0, False)) (\<lambda>i. 1 \<le> i)
          \<lparr>vgroups = [\<lparr>vg_key = 0, channel_names = [''S''],
                       fragments = [\<lparr>master = [0, 1], columns = [([5, 6 :: int], None)]\<rparr>]\<rparr>,
                      \<lparr>vg_key = 1, channel_names = [],
                       fragments = [\<lparr>master = [0, 1], columns = []\<rparr>]\<rparr>],
           start_time = 0, copy_on_get = True\<rparr> None None 0 True False)
   = Inr (Some [\<lparr>og_source = 0, og_master = [0, 1], og_columns = [([5, 6], None)]\<rparr>])"
  by (simp add: cut_def cut_group_def cut_fragment_def fragment_window_def emit_def
      first_signals_def append_group_def Let_def)

subsection \<open>\<^verbatim>\<open>copy_on_get\<close>\<close>

text \<open>
  C9 fails on the return path of the terminate flag: \<^verbatim>\<open>convert\<close> and \<^verbatim>\<open>cut\<close> (and in
  the same way \<^verbatim>\<open>filter\<close> and \<^verbatim>\<open>cleanup_timestamps\<close>) return from inside the loop,
  before the line that switches \<^verbatim>\<open>copy_on_get\<close> on again, and leave the source instance
  with \<^verbatim>\<open>copy_on_get\<close> switched off. \<^verbatim>\<open>concatenate\<close> and \<^verbatim>\<open>stack\<close> switch it on
  before they read the flag.
\<close>

theorem terminate_leaves_copy_on_get_off:
  "convert (\<lambda>i. True)
     \<lparr>vgroups = [\<lparr>vg_key = 0, channel_names = [''S''],
                  fragments = [\<lparr>master = [0, 1], columns = [([5, 6 :: int], None)]\<rparr>]\<rparr>],
      start_time = 0, copy_on_get = True\<rparr>
   = (Inr None,
      \<lparr>vgroups = [\<lparr>vg_key = 0, channel_names = [''S''],
                   fragments = [\<lparr>master = [0, 1], columns = [([5, 6 :: int], None)]\<rparr>]\<rparr>],
       start_time = 0, copy_on_get = False\<rparr>) \<and>
   cut (\<lambda>sig t. (0, False)) (\<lambda>i. True)
     \<lparr>vgroups = [\<lparr>vg_key = 0, channel_names = [''S''],
                  fragments = [\<lparr>master = [0, 1], columns = [([5, 6 :: int], None)]\<rparr>]\<rparr>],
      start_time = 0, copy_on_get = True\<rparr> None None 0 True False
   = (Inr None,
      \<lparr>vgroups = [\<lparr>vg_key = 0, channel_names = [''S''],
                   fragments = [\<lparr>master = [0, 1], columns = [([5, 6 :: int], None)]\<rparr>]\<rparr>],
       start_time = 0, copy_on_get = False\<rparr>) \<and>
   stack (\<lambda>i. True)
     [\<lparr>vgroups = [\<lparr>vg_key = 0, channel_names = [''S''],
                   fragments = [\<lparr>master = [0, 1], columns = [([5, 6 :: int], None)]\<rparr>]\<rparr>],
       start_time = 0, copy_on_get = True\<rparr>] False
   = (Inr None,
      [\<lparr>vgroups = [\<lparr>vg_key = 0, channel_names = [''S''],
                    fragments = [\<lparr>master = [0, 1], columns = [([5, 6 :: int], None)]\<rparr>]\<rparr>],
        start_time = 0, copy_on_get = True\<rparr>])"
  by (simp add: convert_def cut_def stack_def Let_def)

subsection \<open>The structure check of \<^verbatim>\<open>concatenate\<close>\<close>


lemma place_error: "place acc ps = Inl e \<Longrightarrow> e = IndexError"
  by (induction ps arbitrary: acc) (auto split: if_splits)

lemma cat_first_result:
  "(cat_first origin aso mdf_index offset key signals st = Inl e \<longrightarrow> e = IndexError) \<and>
   (cat_first origin aso mdf_index offset key signals st = Inr st' \<longrightarrow>
      ct_names st' = ct_names st \<and> ct_groups_nr st' = ct_groups_nr st \<and>
      ct_last_timestamps st' = ct_last_timestamps st)"
  by (auto simp: cat_first_def Let_def split: list.splits if_splits)



lemma cat_next_result:
  "(cat_next origin aso dtc mdf_index offset key dco remap idx sigs st = Inl e \<longrightarrow>
      e \<in> {IndexError, AttributeError, KeyError, TypeError}) \<and>
   (cat_next origin aso dtc mdf_index offset key dco remap idx sigs st = Inr st' \<longrightarrow>
      ct_names st' = ct_names st \<and> ct_groups_nr st' = ct_groups_nr st \<and>
      ct_last_timestamps st' = ct_last_timestamps st)"
proof -
  define r where "r = (if dco
            then place (replicate (length (columns sigs)) None) (zip remap (columns sigs))
            else Inr (map Some (columns sigs)))"
  show ?thesis
  proof (cases r)
    case (Inl e')
    then have "e' = IndexError"
      by (auto simp: r_def split: if_splits dest: place_error)
    then show ?thesis
      using Inl by (simp add: cat_next_def r_def [symmetric])
  next
    case (Inr new_signals)
    obtain m l where sm: "shift_master offset dtc (ct_last st) (master sigs) = (m, l)"
      by (cases "shift_master offset dtc (ct_last st) (master sigs)")
    show ?thesis
      using Inr sm
      by (cases "ct_cg_map st key") (auto simp add: cat_next_def r_def [symmetric])
  qed
qed


lemma cat_fragments_result:
  "(cat_fragments origin aso dtc mdf_index offset key dco remap idx frs st = Inl e \<longrightarrow>
      e \<in> {IndexError, AttributeError, KeyError, TypeError}) \<and>
   (cat_fragments origin aso dtc mdf_index offset key dco remap idx frs st = Inr st' \<longrightarrow>
      ct_names st' = ct_names st \<and> ct_groups_nr st' = ct_groups_nr st \<and>
      ct_last_timestamps st' = ct_last_timestamps st)"
proof (induction frs arbitrary: idx st)
  case Nil
  then show ?case by simp
next
  case (Cons sigs rest)
  show ?case
  proof (cases "idx = 0 \<and> columns sigs = []")
    case True
    then show ?thesis by simp
  next
    case False
    define r where "r = (if mdf_index = 0 \<and> idx = 0
               then cat_first origin aso mdf_index offset key (first_signals sigs) st
               else cat_next origin aso dtc mdf_index offset key dco remap idx sigs st)"
    have step: "cat_fragments origin aso dtc mdf_index offset key dco remap idx (sigs # rest) st =
      (case r of Inl e \<Rightarrow> Inl e
       | Inr st1 \<Rightarrow> cat_fragments origin aso dtc mdf_index offset key dco remap (Suc idx) rest st1)"
      using False by (auto simp: r_def)
    show ?thesis
    proof (cases r)
      case (Inl e')
      then have "e' \<in> {IndexError, AttributeError, KeyError, TypeError}"
        using cat_first_result [of origin aso mdf_index offset key "first_signals sigs" st e']
          cat_next_result [of origin aso dtc mdf_index offset key dco remap idx sigs st e']
        by (simp add: r_def split: if_splits)
      then show ?thesis unfolding step Inl by auto
    next
      case (Inr st1)
      then have "ct_names st1 = ct_names st \<and> ct_groups_nr st1 = ct_groups_nr st \<and>
          ct_last_timestamps st1 = ct_last_timestamps st"
        using cat_first_result [of origin aso mdf_index offset key "first_signals sigs" st _ st1]
          cat_next_result [of origin aso dtc mdf_index offset key dco remap idx sigs st _ st1]
        by (simp add: r_def split: if_splits)
      then show ?thesis using Cons.IH [of "Suc idx" st1] unfolding step Inr by simp
    qed
  qed
qed

lemma cat_fragments_Inl:
  "cat_fragments origin aso dtc mdf_index offset key dco remap idx frs st = Inl e \<Longrightarrow>
   e \<in> {IndexError, AttributeError, KeyError, TypeError}"
  using cat_fragments_result [of origin aso dtc mdf_index offset key dco remap idx frs st e] by simp

lemma cat_fragments_Inr:
  "cat_fragments origin aso dtc mdf_index offset key dco remap idx frs st = Inr st' \<Longrightarrow>
   ct_names st' = ct_names st \<and> ct_groups_nr st' = ct_groups_nr st \<and>
   ct_last_timestamps st' = ct_last_timestamps st"
  using cat_fragments_result [of origin aso dtc mdf_index offset key dco remap idx frs st _ st'] by simp

lemma cat_group_rest_Inl:
  "cat_group_rest origin aso dtc mdf_index offset i dco remap g st = Inl e \<Longrightarrow> data_error e"
  by (auto simp: cat_group_rest_def data_error_def split: if_splits sum.splits
      dest!: cat_fragments_Inl)

lemma cat_group_rest_Inr:
  "cat_group_rest origin aso dtc mdf_index offset i dco remap g st = Inr st' \<Longrightarrow>
   ct_names st' = ct_names st \<and> ct_groups_nr st' = ct_groups_nr st"
  by (auto simp: cat_group_rest_def split: if_splits sum.splits dest!: cat_fragments_Inr)

lemma cat_group_first_Inl:
  "cat_group origin aso dtc 0 offset i g st = Inl e \<Longrightarrow> data_error e"
  by (auto simp: cat_group_def dest: cat_group_rest_Inl)

lemma cat_group_first_Inr:
  "cat_group origin aso dtc 0 offset i g st = Inr st' \<Longrightarrow>
   ct_names st' = ct_names st @ [channel_names g] \<and> ct_groups_nr st' = ct_groups_nr st"
  by (auto simp: cat_group_def dest!: cat_group_rest_Inr)

lemma cat_group_later_mismatch:
  "mdf_index \<noteq> 0 \<Longrightarrow> sort (channel_names g) \<noteq> sort (ct_names st ! i) \<Longrightarrow>
   cat_group origin aso dtc mdf_index offset i g st = Inl (MdfException Different_channels)"
  by (auto simp: cat_group_def)

lemma cat_group_later_Inl:
  "mdf_index \<noteq> 0 \<Longrightarrow> sort (channel_names g) = sort (ct_names st ! i) \<Longrightarrow>
   cat_group origin aso dtc mdf_index offset i g st = Inl e \<Longrightarrow> data_error e"
  by (auto simp: cat_group_def split: if_splits dest: cat_group_rest_Inl)

lemma cat_group_later_Inr:
  "mdf_index \<noteq> 0 \<Longrightarrow> cat_group origin aso dtc mdf_index offset i g st = Inr st' \<Longrightarrow>
   ct_names st' = ct_names st \<and> ct_groups_nr st' = ct_groups_nr st"
  by (auto simp: cat_group_def split: if_splits dest!: cat_group_rest_Inr)

lemma cat_groups_first_Inl:
  "cat_groups origin aso dtc 0 offset i gs st = Inl e \<Longrightarrow> data_error e"
proof (induction gs arbitrary: i st)
  case Nil
  then show ?case by simp
next
  case (Cons g gs)
  show ?case
  proof (cases "cat_group origin aso dtc 0 offset i g st")
    case (Inl e')
    then show ?thesis using Cons.prems cat_group_first_Inl [of origin aso dtc offset i g st e'] by simp
  next
    case (Inr st1)
    then show ?thesis using Cons.prems Cons.IH [of "Suc i" st1] by simp
  qed
qed

lemma cat_groups_first_Inr:
  "cat_groups origin aso dtc 0 offset i gs st = Inr st' \<Longrightarrow>
   ct_names st' = ct_names st @ map channel_names gs \<and> ct_groups_nr st' = ct_groups_nr st"
proof (induction gs arbitrary: i st)
  case Nil
  then show ?case by simp
next
  case (Cons g gs)
  show ?case
  proof (cases "cat_group origin aso dtc 0 offset i g st")
    case (Inl e')
    then show ?thesis using Cons.prems by simp
  next
    case (Inr st1)
    then have "ct_names st1 = ct_names st @ [channel_names g] \<and> ct_groups_nr st1 = ct_groups_nr st"
      by (rule cat_group_first_Inr)
    then show ?thesis using Cons.prems Cons.IH [of "Suc i" st1] by (simp add: Inr)
  qed
qed

lemma cat_groups_later_Inr:
  "mdf_index \<noteq> 0 \<Longrightarrow> cat_groups origin aso dtc mdf_index offset i gs st = Inr st' \<Longrightarrow>
   ct_names st' = ct_names st \<and> ct_groups_nr st' = ct_groups_nr st"
proof (induction gs arbitrary: i st)
  case Nil
  then show ?case by simp
next
  case (Cons g gs)
  show ?case
  proof (cases "cat_group origin aso dtc mdf_index offset i g st")
    case (Inl e')
    then show ?thesis using Cons.prems by simp
  next
    case (Inr st1)
    then have "ct_names st1 = ct_names st \<and> ct_groups_nr st1 = ct_groups_nr st"
      using Cons.prems(1) by (rule cat_group_later_Inr [rotated])
    then show ?thesis using Cons.prems Cons.IH [of "Suc i" st1] by (simp add: Inr)
  qed
qed

text \<open>The names of the groups \<open>gs\<close> agree, up to order, with the recorded names from position \<open>i\<close> on.\<close>

lemma cat_groups_later_mismatch:
  "mdf_index \<noteq> 0 \<Longrightarrow> length gs + i \<le> length (ct_names st) \<Longrightarrow>
   \<not> list_all2 (\<lambda>n g. sort (channel_names g) = sort n) (take (length gs) (drop i (ct_names st))) gs \<Longrightarrow>
   \<exists>e. cat_groups origin aso dtc mdf_index offset i gs st = Inl e"
proof (induction gs arbitrary: i st)
  case Nil
  then show ?case by simp
next
  case (Cons g gs)
  let ?N = "ct_names st"
  from Cons.prems have "i < length ?N" by simp
  then have dr: "drop i ?N = ?N ! i # drop (Suc i) ?N"
    by (simp add: Cons_nth_drop_Suc)
  show ?case
  proof (cases "sort (channel_names g) = sort (?N ! i)")
    case False
    then show ?thesis
      using cat_group_later_mismatch [OF Cons.prems(1), of g st i origin aso dtc offset] by simp
  next
    case same: True
    show ?thesis
    proof (cases "cat_group origin aso dtc mdf_index offset i g st")
      case (Inl e')
      then show ?thesis by simp
    next
      case (Inr st1)
      then have keep: "ct_names st1 = ?N"
        using Cons.prems(1) cat_group_later_Inr by blast
      have "\<not> list_all2 (\<lambda>n g. sort (channel_names g) = sort n)
               (take (length gs) (drop (Suc i) (ct_names st1))) gs"
        using Cons.prems(3) same by (simp add: dr keep)
      moreover have "length gs + Suc i \<le> length (ct_names st1)"
        using Cons.prems(2) by (simp add: keep)
      ultimately show ?thesis
        using Cons.IH [OF Cons.prems(1), of "Suc i" st1] by (simp add: Inr)
    qed
  qed
qed

lemma cat_groups_later_Inl:
  "mdf_index \<noteq> 0 \<Longrightarrow> length gs + i \<le> length (ct_names st) \<Longrightarrow>
   list_all2 (\<lambda>n g. sort (channel_names g) = sort n) (take (length gs) (drop i (ct_names st))) gs \<Longrightarrow>
   cat_groups origin aso dtc mdf_index offset i gs st = Inl e \<Longrightarrow> data_error e"
proof (induction gs arbitrary: i st)
  case Nil
  then show ?case by simp
next
  case (Cons g gs)
  let ?N = "ct_names st"
  from Cons.prems have "i < length ?N" by simp
  then have dr: "drop i ?N = ?N ! i # drop (Suc i) ?N"
    by (simp add: Cons_nth_drop_Suc)
  have same: "sort (channel_names g) = sort (?N ! i)"
    using Cons.prems(3) by (simp add: dr)
  show ?case
  proof (cases "cat_group origin aso dtc mdf_index offset i g st")
    case (Inl e')
    then show ?thesis
      using Cons.prems(4) cat_group_later_Inl [OF Cons.prems(1) same, of origin aso dtc offset e']
      by simp
  next
    case (Inr st1)
    then have keep: "ct_names st1 = ?N"
      using Cons.prems(1) cat_group_later_Inr by blast
    have "list_all2 (\<lambda>n g. sort (channel_names g) = sort n)
               (take (length gs) (drop (Suc i) (ct_names st1))) gs"
      using Cons.prems(3) by (simp add: dr keep)
    moreover have "length gs + Suc i \<le> length (ct_names st1)"
      using Cons.prems(2) by (simp add: keep)
    moreover have "cat_groups origin aso dtc mdf_index offset (Suc i) gs st1 = Inl e"
      using Cons.prems(4) by (simp add: Inr)
    ultimately show ?thesis
      using Cons.IH [OF Cons.prems(1), of "Suc i" st1] by simp
  qed
qed


lemma cat_group_error_kind:
  "cat_group origin aso dtc mdf_index offset i g st = Inl e \<Longrightarrow>
   e = MdfException Different_channels \<or> data_error e"
  by (auto simp: cat_group_def split: if_splits dest: cat_group_rest_Inl)

lemma cat_groups_error_kind:
  "cat_groups origin aso dtc mdf_index offset i gs st = Inl e \<Longrightarrow>
   e = MdfException Different_channels \<or> data_error e"
proof (induction gs arbitrary: i st)
  case Nil
  then show ?case by simp
next
  case (Cons g gs)
  show ?case
  proof (cases "cat_group origin aso dtc mdf_index offset i g st")
    case (Inl e')
    then show ?thesis using Cons.prems cat_group_error_kind [of origin aso dtc mdf_index offset i g st e']
      by simp
  next
    case (Inr st1)
    then show ?thesis using Cons.prems Cons.IH [of "Suc i" st1] by simp
  qed
qed

lemma data_error_not_structural: "data_error e \<Longrightarrow> \<not> structural_mismatch e"
  by (auto simp: data_error_def structural_mismatch_def)

lemma cat_file_error_kind:
  "fst (cat_file origin aso dtc mdf_index offset mdf st) = Inl e \<Longrightarrow>
   structural_mismatch e \<or> data_error e"
  by (auto simp: cat_file_def Let_def structural_mismatch_def split: if_splits sum.splits
      dest: cat_groups_error_kind)

lemma cat_file_first_Inl:
  "fst (cat_file origin aso dtc 0 offset mdf st) = Inl e \<Longrightarrow> data_error e"
  by (auto simp: cat_file_def Let_def split: sum.splits dest: cat_groups_first_Inl)

lemma cat_file_first_Inr:
  "fst (cat_file origin aso dtc 0 offset mdf st) = Inr st' \<Longrightarrow> ct_names st = [] \<Longrightarrow>
   ct_names st' = map channel_names (vgroups mdf) \<and> ct_groups_nr st' = length (vgroups mdf)"
  by (auto simp: cat_file_def Let_def split: sum.splits dest!: cat_groups_first_Inr)

lemma cat_file_later_Inr:
  assumes "mdf_index \<noteq> 0" and "fst (cat_file origin aso dtc mdf_index offset mdf st) = Inr st'"
  shows "ct_names st' = ct_names st \<and> ct_groups_nr st' = ct_groups_nr st"
proof -
  have "cat_groups origin aso dtc mdf_index offset 0 (vgroups mdf) st = Inr st'"
    using assms by (auto simp: cat_file_def Let_def split: sum.splits if_splits)
  then show ?thesis using assms(1) cat_groups_later_Inr by blast
qed

lemma same_structure_names:
  "same_structure first mdf \<longleftrightarrow>
   list_all2 (\<lambda>n g. sort (channel_names g) = sort n)
     (map channel_names (vgroups first)) (vgroups mdf)"
  by (simp add: same_structure_def list_all2_map1)

lemma cat_file_later_mismatch:
  assumes "mdf_index \<noteq> 0"
    and "ct_names st = map channel_names (vgroups first)"
    and "ct_groups_nr st = length (vgroups first)"
    and "\<not> same_structure first mdf"
  shows "\<exists>e. fst (cat_file origin aso dtc mdf_index offset mdf st) = Inl e"
proof (cases "length (vgroups mdf) = length (vgroups first)")
  case False
  then show ?thesis using assms by (simp add: cat_file_def Let_def)
next
  case True
  then have "\<not> list_all2 (\<lambda>n g. sort (channel_names g) = sort n)
     (take (length (vgroups mdf)) (drop 0 (ct_names st))) (vgroups mdf)"
    using assms(2,4) by (simp add: same_structure_names)
  moreover have "length (vgroups mdf) + 0 \<le> length (ct_names st)"
    using True assms(2) by simp
  ultimately obtain e where "cat_groups origin aso dtc mdf_index offset 0 (vgroups mdf) st = Inl e"
    using cat_groups_later_mismatch [OF assms(1), of "vgroups mdf" 0 st origin aso dtc offset]
    by blast
  then show ?thesis using assms(1,3) True by (simp add: cat_file_def Let_def)
qed

lemma cat_file_later_Inl:
  assumes "mdf_index \<noteq> 0"
    and "ct_names st = map channel_names (vgroups first)"
    and "ct_groups_nr st = length (vgroups first)"
    and "same_structure first mdf"
    and "fst (cat_file origin aso dtc mdf_index offset mdf st) = Inl e"
  shows "data_error e"
proof -
  have len: "length (vgroups mdf) = length (vgroups first)"
    using assms(4) by (auto simp: same_structure_def dest: list_all2_lengthD)
  then have all: "list_all2 (\<lambda>n g. sort (channel_names g) = sort n)
     (take (length (vgroups mdf)) (drop 0 (ct_names st))) (vgroups mdf)"
    using assms(2,4) by (simp add: same_structure_names)
  have "cat_groups origin aso dtc mdf_index offset 0 (vgroups mdf) st = Inl e"
    using assms(1,3,5) len by (auto simp: cat_file_def Let_def split: sum.splits)
  moreover have "length (vgroups mdf) + 0 \<le> length (ct_names st)"
    using len assms(2) by simp
  ultimately show ?thesis
    using cat_groups_later_Inl [OF assms(1) _ all] by blast
qed

lemma cat_files_later_mismatch:
  "i \<noteq> 0 \<Longrightarrow> ct_names st = map channel_names (vgroups first) \<Longrightarrow>
   ct_groups_nr st = length (vgroups first) \<Longrightarrow> \<forall>k. \<not> terminate k \<Longrightarrow>
   \<not> list_all (same_structure first) (map snd fs) \<Longrightarrow>
   \<exists>e. fst (cat_files origin aso dtc terminate i fs st) = Inl e"
proof (induction fs arbitrary: i st)
  case Nil
  then show ?case by simp
next
  case (Cons f fs)
  obtain offset mdf where f: "f = (offset, mdf)" by (cases f)
  obtain r mdf' where c: "cat_file origin aso dtc i offset mdf st = (r, mdf')"
    by (cases "cat_file origin aso dtc i offset mdf st")
  have nt: "\<not> terminate i" using Cons.prems(4) by blast
  show ?case
  proof (cases r)
    case (Inl e)
    then show ?thesis by (simp add: f c)
  next
    case (Inr st2)
    then have keep: "ct_names st2 = ct_names st \<and> ct_groups_nr st2 = ct_groups_nr st"
      using cat_file_later_Inr [OF Cons.prems(1), of origin aso dtc offset mdf st st2] c by simp
    have "same_structure first mdf"
      using cat_file_later_mismatch [OF Cons.prems(1-3), of mdf origin aso dtc offset] c Inr
      by auto
    then have rest: "\<not> list_all (same_structure first) (map snd fs)"
      using Cons.prems(5) by (simp add: f)
    have "\<exists>e. fst (cat_files origin aso dtc terminate (Suc i) fs st2) = Inl e"
    proof (rule Cons.IH)
      show "Suc i \<noteq> 0" by simp
      show "ct_names st2 = map channel_names (vgroups first)" using keep Cons.prems(2) by simp
      show "ct_groups_nr st2 = length (vgroups first)" using keep Cons.prems(3) by simp
      show "\<forall>k. \<not> terminate k" by (rule Cons.prems(4))
      show "\<not> list_all (same_structure first) (map snd fs)" by (rule rest)
    qed
    then obtain e where "fst (cat_files origin aso dtc terminate (Suc i) fs st2) = Inl e" ..
    then show ?thesis using nt by (auto simp: f c Inr split: prod.splits)
  qed
qed

lemma cat_files_later_Inl:
  "i \<noteq> 0 \<Longrightarrow> ct_names st = map channel_names (vgroups first) \<Longrightarrow>
   ct_groups_nr st = length (vgroups first) \<Longrightarrow>
   list_all (same_structure first) (map snd fs) \<Longrightarrow>
   fst (cat_files origin aso dtc terminate i fs st) = Inl e \<Longrightarrow> data_error e"
proof (induction fs arbitrary: i st)
  case Nil
  then show ?case by simp
next
  case (Cons f fs)
  obtain offset mdf where f: "f = (offset, mdf)" by (cases f)
  obtain r mdf' where c: "cat_file origin aso dtc i offset mdf st = (r, mdf')"
    by (cases "cat_file origin aso dtc i offset mdf st")
  have same: "same_structure first mdf" and rest: "list_all (same_structure first) (map snd fs)"
    using Cons.prems(4) by (simp_all add: f)
  show ?case
  proof (cases r)
    case (Inl e')
    then have "e' = e" using Cons.prems(5) by (simp add: f c)
    then show ?thesis
      using cat_file_later_Inl [OF Cons.prems(1-3) same, of origin aso dtc offset e] c Inl by simp
  next
    case (Inr st2)
    then have keep: "ct_names st2 = ct_names st \<and> ct_groups_nr st2 = ct_groups_nr st"
      using cat_file_later_Inr [OF Cons.prems(1), of origin aso dtc offset mdf st st2] c by simp
    have "fst (cat_files origin aso dtc terminate (Suc i) fs st2) = Inl e"
      using Cons.prems(5) by (auto simp: f c Inr split: prod.splits if_splits)
    then show ?thesis
      using Cons.IH [of "Suc i" st2] Cons.prems(2,3) keep rest by simp
  qed
qed

lemma cat_files_error_kind:
  "fst (cat_files origin aso dtc terminate i fs st) = Inl e \<Longrightarrow>
   structural_mismatch e \<or> data_error e"
proof (induction fs arbitrary: i st)
  case Nil
  then show ?case by simp
next
  case (Cons f fs)
  obtain offset mdf where f: "f = (offset, mdf)" by (cases f)
  obtain r mdf' where c: "cat_file origin aso dtc i offset mdf st = (r, mdf')"
    by (cases "cat_file origin aso dtc i offset mdf st")
  show ?case
  proof (cases r)
    case (Inl e')
    then have "e' = e" using Cons.prems by (simp add: f c)
    then show ?thesis
      using cat_file_error_kind [of origin aso dtc i offset mdf st e] c Inl by simp
  next
    case (Inr st2)
    have "fst (cat_files origin aso dtc terminate (Suc i) fs st2) = Inl e"
      using Cons.prems by (auto simp: f c Inr split: prod.splits if_splits)
    then show ?thesis by (rule Cons.IH)
  qed
qed

subsection \<open>Monotonic time stamps of \<^verbatim>\<open>concatenate\<close>\<close>


lemma sorted_shift: "sorted (map (\<lambda>t. t + c) m) = sorted (m :: rat list)"
  by (simp add: sorted_map)

lemma sorted_le_last: "sorted M \<Longrightarrow> x \<in> set M \<Longrightarrow> x \<le> last (M :: rat list)"
  by (cases M rule: rev_cases) (auto simp: sorted_append)

lemma sorted_hd_le: "sorted M \<Longrightarrow> x \<in> set M \<Longrightarrow> hd M \<le> (x :: rat)"
  by (cases M) auto

lemma shift_master_sorted:
  assumes "sorted m" and "m \<noteq> []" and "sorted M"
    and "last_ts = (if M = [] then None else Some (last M))"
  shows "sorted (M @ fst (shift_master offset dtc last_ts m)) \<and>
         length (fst (shift_master offset dtc last_ts m)) = length m \<and>
         fst (shift_master offset dtc last_ts m) \<noteq> [] \<and>
         snd (shift_master offset dtc last_ts m) = Some (last (fst (shift_master offset dtc last_ts m)))"
proof -
  define m1 where "m1 = (if offset > 0 then map (\<lambda>t. t + offset) m else m)"
  have m1: "sorted m1" "m1 \<noteq> []" "length m1 = length m"
    using assms(1,2) by (auto simp: m1_def sorted_shift)
  show ?thesis
  proof (cases "M = []")
    case True
    then show ?thesis using m1 assms(4) by (simp add: shift_master_def m1_def [symmetric])
  next
    case False
    then have lt: "last_ts = Some (last M)" using assms(4) by simp
    show ?thesis
    proof (cases "last M \<ge> hd m1 \<or> dtc")
      case no: False
      then have r: "shift_master offset dtc last_ts m = (m1, Some (last m1))"
        by (simp add: shift_master_def m1_def [symmetric] lt)
      have "x \<le> y" if "x \<in> set M" "y \<in> set m1" for x y
      proof -
        have "x \<le> last M" using assms(3) that(1) by (rule sorted_le_last)
        moreover have "hd m1 \<le> y" using m1(1) that(2) by (rule sorted_hd_le)
        ultimately show ?thesis using no by simp
      qed
      then show ?thesis using m1 assms(3) by (auto simp: r sorted_append)
    next
      case yes: True
      define delta where "delta = (if length m1 \<ge> 2 then m1 ! 1 - m1 ! 0 else 1 / 1000)"
      define m3 where "m3 = map (\<lambda>t. t + (last M + delta)) (map (\<lambda>t. t - hd m1) m1)"
      have r: "shift_master offset dtc last_ts m = (m3, Some (last m3))"
        using yes by (simp add: shift_master_def m1_def [symmetric] lt Let_def m3_def delta_def)
      have d: "0 \<le> delta"
      proof (cases "length m1 \<ge> 2")
        case True
        then have "m1 ! 0 \<le> m1 ! 1" using m1(1) by (simp add: sorted_nth_mono)
        then show ?thesis using True by (simp add: delta_def)
      next
        case False
        then show ?thesis by (simp add: delta_def)
      qed
      have s3: "sorted m3" using m1(1) by (simp add: m3_def sorted_map o_def)
      have n3: "m3 \<noteq> []" "length m3 = length m" using m1 by (simp_all add: m3_def)
      have h3: "hd m3 = last M + delta" using m1(2) by (simp add: m3_def hd_map)
      have "x \<le> y" if "x \<in> set M" "y \<in> set m3" for x y
      proof -
        have "x \<le> last M" using assms(3) that(1) by (rule sorted_le_last)
        moreover have "hd m3 \<le> y" using s3 that(2) by (rule sorted_hd_le)
        ultimately show ?thesis using d h3 by simp
      qed
      then show ?thesis using s3 n3 assms(3) by (auto simp: r sorted_append)
    qed
  qed
qed


lemma cat_next_one:
  assumes "one_group key st M" and "sorted (master sigs)"
  shows "\<exists>st'. cat_next origin aso dtc mdf_index offset key False remap idx sigs st = Inr st' \<and>
           (\<exists>M'. one_group key st' M' \<and> length M' = length M + length (master sigs))"
proof (cases "master sigs = []")
  case True
  then show ?thesis using assms(1) by (auto simp: cat_next_def)
next
  case False
  obtain og where og: "ct_merged st = [og]" "og_master og = M" "ct_cg_map st key = Some 0"
      "sorted M" "ct_last st = (if M = [] then None else Some (last M))"
    using assms(1) by (auto simp: one_group_def)
  obtain m l where sm: "shift_master offset dtc (ct_last st) (master sigs) = (m, l)"
    by (cases "shift_master offset dtc (ct_last st) (master sigs)")
  have props: "sorted (M @ m)" "length m = length (master sigs)" "m \<noteq> []" "l = Some (last m)"
    using shift_master_sorted [OF assms(2) False og(4,5), of offset dtc] by (simp_all add: sm)
  define cols where "cols = map the (map Some (columns sigs))
                                    @ (if aso then [(replicate (length m) (origin mdf_index), None)]
                                       else [])"
  have r: "cat_next origin aso dtc mdf_index offset key False remap idx sigs st
      = Inr (st\<lparr>ct_last := l, ct_merged := [extend_group og m cols]\<rparr>)"
    using False og(1,3) by (simp add: cat_next_def sm mdf_extend_def cols_def)
  have "one_group key (st\<lparr>ct_last := l, ct_merged := [extend_group og m cols]\<rparr>) (M @ m)"
    using og props by (simp add: one_group_def extend_group_def)
  then show ?thesis using props(2) r by auto
qed

lemma cat_first_one:
  assumes "ct_merged st = []" and "ct_last st = None" and "wf_fragment sigs"
  shows "\<exists>st'. cat_first origin aso 0 offset key (first_signals sigs) st = Inr st' \<and>
           (\<exists>M'. one_group key st' M' \<and> length M' = length (master sigs))"
proof -
  obtain c cs where cols: "columns sigs = c # cs"
    using assms(3) by (cases "columns sigs") (auto simp: wf_fragment_def)
  have len: "length (fst c) = length (master sigs)" and srt: "sorted (master sigs)"
    using assms(3) by (auto simp: wf_fragment_def cols)
  then have emp: "fst c = [] \<longleftrightarrow> master sigs = []" by auto
  define first_signal where "first_signal = \<lparr>samples = fst c, timestamps = master sigs, invalidation_bits = snd c\<rparr>"
  have fs: "first_signals sigs = first_signal # map (\<lambda>(s, b). \<lparr>samples = s, timestamps = master sigs, invalidation_bits = b\<rparr>) cs"
    by (simp add: first_signals_def cols first_signal_def split: prod.splits)
  define ts where "ts = (if master sigs \<noteq> [] \<and> offset > 0
                       then map (\<lambda>t. t + offset) (master sigs) else master sigs)"
  have tsp: "sorted ts" "length ts = length (master sigs)"
    using srt by (auto simp: ts_def sorted_shift)
  obtain st' where r: "cat_first origin aso 0 offset key (first_signals sigs) st = Inr st'"
    and m: "ct_merged st' = snd (append_group key
       ((if master sigs \<noteq> [] \<and> offset > 0
                             then map (\<lambda>sig. sig\<lparr>timestamps := ts\<rparr>) (first_signals sigs) else first_signals sigs)
        @ (if aso then [\<lparr>samples = replicate (length (fst c)) (origin 0),
                                               timestamps = ts, invalidation_bits = None\<rparr>] else [])) [])"
    and cg: "ct_cg_map st' key = Some 0"
    and l: "ct_last st' = (if master sigs \<noteq> [] then Some (last ts) else None)"
    using assms(1,2) emp
    by (auto simp: cat_first_def fs first_signal_def Let_def ts_def append_group_def)
  have "\<exists>og. ct_merged st' = [og] \<and> og_master og = ts"
    by (auto simp: m append_group_def fs first_signal_def ts_def)
  then have "one_group key st' ts"
    using cg l tsp by (auto simp: one_group_def)
  then show ?thesis using r tsp(2) by auto
qed

lemma cat_fragments_one:
  assumes "one_group key st M" and "list_all wf_fragment frs" and "mdf_index \<noteq> 0 \<or> idx \<noteq> 0"
  shows "\<exists>st'. cat_fragments origin aso dtc mdf_index offset key False remap idx frs st = Inr st' \<and>
           (\<exists>M'. one_group key st' M' \<and>
                 length M' = length M + length (concat (map master frs)))"
  using assms
proof (induction frs arbitrary: idx st M)
  case Nil
  then show ?case by auto
next
  case (Cons sigs rest)
  have wfr: "list_all wf_fragment rest" and "wf_fragment sigs"
    using Cons.prems(2) by simp_all
  then have wf: "columns sigs \<noteq> []" "sorted (master sigs)"
    by (simp_all add: wf_fragment_def)
  obtain st1 M1 where s1: "cat_next origin aso dtc mdf_index offset key False remap idx sigs st = Inr st1"
      "one_group key st1 M1" "length M1 = length M + length (master sigs)"
    using cat_next_one [OF Cons.prems(1) wf(2), of origin aso dtc mdf_index offset remap idx] by blast
  obtain st' M' where s2: "cat_fragments origin aso dtc mdf_index offset key False remap (Suc idx) rest st1 = Inr st'"
      "one_group key st' M'" "length M' = length M1 + length (concat (map master rest))"
    using Cons.IH [OF s1(2) wfr, of "Suc idx"] by blast
  have "cat_fragments origin aso dtc mdf_index offset key False remap idx (sigs # rest) st = Inr st'"
    using Cons.prems(3) wf(1) s1(1) s2(1) by auto
  then show ?case using s2(2,3) s1(3) by auto
qed

lemma cat_fragments_one_first:
  assumes "ct_merged st = []" and "ct_last st = None" and "list_all wf_fragment frs" and "frs \<noteq> []"
  shows "\<exists>st'. cat_fragments origin aso dtc 0 offset key False remap 0 frs st = Inr st' \<and>
           (\<exists>M'. one_group key st' M' \<and> length M' = length (concat (map master frs)))"
proof -
  obtain sigs rest where frs: "frs = sigs # rest" using assms(4) by (cases frs) auto
  have wf1: "wf_fragment sigs" and wfr: "list_all wf_fragment rest"
    using assms(3) by (simp_all add: frs)
  then have wf: "wf_fragment sigs" "columns sigs \<noteq> []"
    by (simp_all add: wf_fragment_def)
  obtain st1 M1 where s1: "cat_first origin aso 0 offset key (first_signals sigs) st = Inr st1"
      "one_group key st1 M1" "length M1 = length (master sigs)"
    using cat_first_one [OF assms(1,2) wf(1), of origin aso offset key] by blast
  obtain st' M' where s2: "cat_fragments origin aso dtc 0 offset key False remap (Suc 0) rest st1 = Inr st'"
      "one_group key st' M'" "length M' = length M1 + length (concat (map master rest))"
    using cat_fragments_one [OF s1(2) wfr, of 0 "Suc 0" origin aso dtc offset remap] by auto
  have "cat_fragments origin aso dtc 0 offset key False remap 0 frs st = Inr st'"
    using wf(2) s1(1) s2(1) by (simp add: frs)
  then show ?thesis using s2(2,3) s1(3) by (auto simp: frs)
qed


lemma single_group_fileD:
  assumes "single_group_file key names file"
  obtains g where "vgroups file = [g]" "vg_key g = key" "channel_names g = names"
    "fragments g \<noteq> []" "list_all wf_fragment (fragments g)"
    "file_timestamps file = concat (map master (fragments g))"
  using assms
  by (auto simp: single_group_file_def file_timestamps_def split: list.splits)

lemma cat_file_first_one:
  assumes "single_group_file key names file" and "names \<noteq> []"
    and "ct_merged st = []" and "ct_names st = []"
  shows "\<exists>st'. fst (cat_file origin aso dtc 0 offset file st) = Inr st' \<and>
           merged_one key names st' (length (file_timestamps file))"
proof -
  obtain g where g: "vgroups file = [g]" "vg_key g = key" "channel_names g = names"
    "fragments g \<noteq> []" "list_all wf_fragment (fragments g)"
    "file_timestamps file = concat (map master (fragments g))"
    using assms(1) by (rule single_group_fileD)
  define st1 where "st1 = st\<lparr>ct_last_timestamps := [None], ct_groups_nr := 1, ct_names := [names], ct_last := None\<rparr>"
  have "ct_merged st1 = []" "ct_last st1 = None" using assms(3) by (simp_all add: st1_def)
  then obtain st2 M where s2: "cat_fragments origin aso dtc 0 offset key False [] 0 (fragments g) st1 = Inr st2"
      "one_group key st2 M" "length M = length (concat (map master (fragments g)))"
    using cat_fragments_one_first [OF _ _ g(5,4), of st1 origin aso dtc offset key "[]"] by blast
  have keep: "ct_names st2 = [names]" "ct_groups_nr st2 = 1" "ct_last_timestamps st2 = [None]"
    using cat_fragments_Inr [OF s2(1)] by (simp_all add: st1_def)
  have r: "fst (cat_file origin aso dtc 0 offset file st)
      = Inr (st2\<lparr>ct_last_timestamps := [ct_last st2]\<rparr>)"
    using s2(1) g(1,2,3) assms(2,4)
    by (simp add: cat_file_def cat_group_def cat_group_rest_def st1_def keep)
  have "merged_one key names (st2\<lparr>ct_last_timestamps := [ct_last st2]\<rparr>) (length (file_timestamps file))"
    using s2(2,3) keep g(6) by (auto simp: merged_one_def one_group_def)
  then show ?thesis using r by auto
qed

lemma cat_file_later_one:
  assumes "single_group_file key names file" and "names \<noteq> []" and "mdf_index \<noteq> 0"
    and "merged_one key names st n"
  shows "\<exists>st'. fst (cat_file origin aso dtc mdf_index offset file st) = Inr st' \<and>
           merged_one key names st' (n + length (file_timestamps file))"
proof -
  obtain g where g: "vgroups file = [g]" "vg_key g = key" "channel_names g = names"
    "fragments g \<noteq> []" "list_all wf_fragment (fragments g)"
    "file_timestamps file = concat (map master (fragments g))"
    using assms(1) by (rule single_group_fileD)
  obtain og where og: "ct_merged st = [og]" "length (og_master og) = n" "sorted (og_master og)"
      "ct_cg_map st key = Some 0"
      "ct_last_timestamps st = [if og_master og = [] then None else Some (last (og_master og))]"
      "ct_names st = [names]" "ct_groups_nr st = 1"
    using assms(4) by (auto simp: merged_one_def)
  define st1 where "st1 = st\<lparr>ct_last := ct_last_timestamps st ! 0\<rparr>"
  have "one_group key st1 (og_master og)"
    using og by (simp add: one_group_def st1_def)
  then obtain st2 M where s2: "cat_fragments origin aso dtc mdf_index offset key False [] 0 (fragments g) st1 = Inr st2"
      "one_group key st2 M" "length M = length (og_master og) + length (concat (map master (fragments g)))"
    using cat_fragments_one [OF _ g(5), of key st1 "og_master og" mdf_index 0 origin aso dtc offset "[]"]
      assms(3) by blast
  have keep: "ct_names st2 = [names]" "ct_groups_nr st2 = 1" "length (ct_last_timestamps st2) = 1"
    using cat_fragments_Inr [OF s2(1)] og by (simp_all add: st1_def)
  have r: "fst (cat_file origin aso dtc mdf_index offset file st)
      = Inr (st2\<lparr>ct_last_timestamps := (ct_last_timestamps st2)[0 := ct_last st2]\<rparr>)"
    using s2(1) g(1,2,3) assms(2,3) og(6,7)
    by (simp add: cat_file_def cat_group_def cat_group_rest_def st1_def)
  have "(ct_last_timestamps st2)[0 := ct_last st2] = [ct_last st2]"
    using keep(3) by (cases "ct_last_timestamps st2") simp_all
  then have "merged_one key names (st2\<lparr>ct_last_timestamps := (ct_last_timestamps st2)[0 := ct_last st2]\<rparr>)
      (n + length (file_timestamps file))"
    using s2(2,3) keep g(6) og(2) by (auto simp: merged_one_def one_group_def)
  then show ?thesis using r by auto
qed

lemma cat_files_one:
  assumes "list_all (single_group_file key names) (map snd fs)" and "names \<noteq> []" and "i \<noteq> 0"
    and "merged_one key names st n" and "\<forall>k. \<not> terminate k"
  shows "\<exists>og. fst (cat_files origin aso dtc terminate i fs st) = Inr (Some [og]) \<and>
           sorted (og_master og) \<and>
           length (og_master og) = n + length (concat (map file_timestamps (map snd fs)))"
  using assms
proof (induction fs arbitrary: i st n)
  case Nil
  then show ?case by (auto simp: merged_one_def)
next
  case (Cons f fs)
  obtain offset mdf where f: "f = (offset, mdf)" by (cases f)
  have nt: "\<not> terminate i" using Cons.prems(5) by blast
  have sg: "single_group_file key names mdf" and rest: "list_all (single_group_file key names) (map snd fs)"
    using Cons.prems(1) by (simp_all add: f)
  obtain st2 where s2: "fst (cat_file origin aso dtc i offset mdf st) = Inr st2"
      "merged_one key names st2 (n + length (file_timestamps mdf))"
    using cat_file_later_one [OF sg Cons.prems(2,3,4), of origin aso dtc offset] by blast
  obtain og where og: "fst (cat_files origin aso dtc terminate (Suc i) fs st2) = Inr (Some [og])"
      "sorted (og_master og)"
      "length (og_master og) = n + length (file_timestamps mdf) + length (concat (map file_timestamps (map snd fs)))"
    using Cons.IH [OF rest Cons.prems(2) _ s2(2) Cons.prems(5), of "Suc i"] by auto
  have "fst (cat_files origin aso dtc terminate i (f # fs) st) = Inr (Some [og])"
    using s2(1) og(1) nt by (auto simp: f split: prod.splits sum.splits)
  then show ?case using og(2,3) by (auto simp: f)
qed

lemma concatenate_single_group:
  assumes "files \<noteq> []" and "names \<noteq> []" and "list_all (single_group_file key names) files"
    and "\<forall>k. \<not> terminate k"
  shows "\<exists>og. fst (concatenate origin terminate files sync aso dtc) = Inr (Some [og]) \<and>
           sorted (og_master og) \<and>
           length (og_master og) = length (concat (map file_timestamps files))"
proof -
  obtain first others where files: "files = first # others"
    using assms(1) by (cases files) auto
  define offsets where "offsets = (if sync
                        then map (\<lambda>file. if start_time file - oldest files > 0
                                          then start_time file - oldest files else 0) files
                        else map (\<lambda>file. 0) files)"
  define st0 :: "'a cat_state" where "st0 = \<lparr>ct_merged = [], ct_cg_map = Map.empty, ct_last = None, ct_last_timestamps = [],
               ct_names = [], ct_groups_nr = 0\<rparr>"
  have conc: "concatenate origin terminate files sync aso dtc
      = cat_files origin aso dtc terminate 0 (zip offsets files) st0"
    using assms(1) by (simp add: concatenate_def offsets_def st0_def)
  have "length offsets = length files" by (simp add: offsets_def)
  then obtain o1 os where offs: "offsets = o1 # os" and los: "length os = length others"
    by (cases offsets) (auto simp: files)
  have z: "zip offsets files = (o1, first) # zip os others" by (simp add: offs files)
  have ms: "map snd (zip os others) = others" using los by simp
  have nt: "\<not> terminate 0" using assms(4) by blast
  have sg: "single_group_file key names first" and rest: "list_all (single_group_file key names) (map snd (zip os others))"
    using assms(3) by (simp_all add: files ms)
  obtain st1 where s1: "fst (cat_file origin aso dtc 0 o1 first st0) = Inr st1"
      "merged_one key names st1 (length (file_timestamps first))"
    using cat_file_first_one [OF sg assms(2), of st0 origin aso dtc o1] by (auto simp: st0_def)
  obtain og where og: "fst (cat_files origin aso dtc terminate (Suc 0) (zip os others) st1) = Inr (Some [og])"
      "sorted (og_master og)"
      "length (og_master og) = length (file_timestamps first) + length (concat (map file_timestamps (map snd (zip os others))))"
    using cat_files_one [OF rest assms(2) _ s1(2) assms(4), of "Suc 0" origin aso dtc] by auto
  have "fst (concatenate origin terminate files sync aso dtc) = Inr (Some [og])"
    using s1(1) og(1) nt by (auto simp: conc z split: prod.splits sum.splits)
  then show ?thesis using og(2,3) by (auto simp: files ms)
qed


text \<open>
  C2, as amended. For a non-empty list of files that each hold one virtual group with the
  same key and the same channel names, with sorted fragments, and while the terminate flag
  is not set, \<^verbatim>\<open>concatenate\<close> yields one group whose time stamps are monotonic
  non-decreasing and as many as the files hold together (8 for time stamps \<open>[0,1,2,3,4]\<close>
  and \<open>[0,1,2]\<close>). The shift is made per fragment: a fragment whose first time stamp
  (after the offset of its file) is not above the last time stamp written so far, or any
  fragment with \<^verbatim>\<open>direct_timestamp_continuation\<close>, is moved to start at that last time
  stamp plus a delta, keeping its spacing; the delta is the first sampling interval of the
  fragment when it has at least two samples, and 0.001 otherwise. Any other fragment keeps
  its time stamps.
\<close>

theorem concatenate_monotonic:
  "(files \<noteq> [] \<and> names \<noteq> [] \<and> list_all (single_group_file key names) files \<and>
    (\<forall>k. \<not> terminate k) \<longrightarrow>
      (\<exists>og. fst (concatenate origin terminate files sync aso dtc) = Inr (Some [og]) \<and>
            sorted (og_master og) \<and>
            length (og_master og) = length (concat (map file_timestamps files)))) \<and>
   (m \<noteq> [] \<and> (hd m \<le> l \<or> dtc) \<longrightarrow>
      hd (fst (shift_master 0 dtc (Some l) m))
        = l + (if 2 \<le> length m then m ! 1 - m ! 0 else 1 / 1000) \<and>
      length (fst (shift_master 0 dtc (Some l) m)) = length m \<and>
      (\<forall>i < length m. fst (shift_master 0 dtc (Some l) m) ! i
                        - hd (fst (shift_master 0 dtc (Some l) m)) = m ! i - hd m)) \<and>
   (m \<noteq> [] \<and> \<not> (hd m \<le> l \<or> dtc) \<longrightarrow> fst (shift_master 0 dtc (Some l) m) = m)"
proof (intro conjI impI)
  assume "files \<noteq> [] \<and> names \<noteq> [] \<and> list_all (single_group_file key names) files \<and>
    (\<forall>k. \<not> terminate k)"
  then show "\<exists>og. fst (concatenate origin terminate files sync aso dtc) = Inr (Some [og]) \<and>
            sorted (og_master og) \<and>
            length (og_master og) = length (concat (map file_timestamps files))"
    using concatenate_single_group [of files names key terminate origin sync aso dtc] by blast
next
  assume a: "m \<noteq> [] \<and> (hd m \<le> l \<or> dtc)"
  then have r: "fst (shift_master 0 dtc (Some l) m)
      = map (\<lambda>t. t + (l + (if 2 \<le> length m then m ! 1 - m ! 0 else 1 / 1000)))
          (map (\<lambda>t. t - hd m) m)"
    by (auto simp: shift_master_def Let_def)
  show "hd (fst (shift_master 0 dtc (Some l) m))
        = l + (if 2 \<le> length m then m ! 1 - m ! 0 else 1 / 1000)"
    using a by (simp add: r hd_map)
  show "length (fst (shift_master 0 dtc (Some l) m)) = length m"
    by (simp add: r)
  show "\<forall>i < length m. fst (shift_master 0 dtc (Some l) m) ! i
                        - hd (fst (shift_master 0 dtc (Some l) m)) = m ! i - hd m"
    using a by (simp add: r hd_map)
next
  assume "m \<noteq> [] \<and> \<not> (hd m \<le> l \<or> dtc)"
  then show "fst (shift_master 0 dtc (Some l) m) = m"
    by (auto simp: shift_master_def Let_def)
qed

theorem concatenate_monotonic_witness:
  "(\<exists>og. fst (concatenate int (\<lambda>k. False)
       [\<lparr>vgroups = [\<lparr>vg_key = 0, channel_names = [''S''],
                     fragments = [\<lparr>master = [0, 1, 2, 3, 4],
                                   columns = [([10, 11, 12, 13, 14 :: int], None)]\<rparr>]\<rparr>],
         start_time = 0, copy_on_get = True\<rparr>,
        \<lparr>vgroups = [\<lparr>vg_key = 0, channel_names = [''S''],
                     fragments = [\<lparr>master = [0, 1, 2], columns = [([20, 21, 22], None)]\<rparr>]\<rparr>],
         start_time = 0, copy_on_get = True\<rparr>] False False False) = Inr (Some [og]) \<and>
       sorted (og_master og) \<and> length (og_master og) = 8) \<and>
   hd (fst (shift_master 0 False (Some 4) [0, 1, 2])) = 5 \<and>
   fst (shift_master 0 False (Some 4) [5, 6]) = [5, 6]"
proof -
  let ?A = "\<lparr>vgroups = [\<lparr>vg_key = 0, channel_names = [''S''],
                     fragments = [\<lparr>master = [0, 1, 2, 3, 4],
                                   columns = [([10, 11, 12, 13, 14 :: int], None)]\<rparr>]\<rparr>],
         start_time = 0, copy_on_get = True\<rparr>"
  let ?B = "\<lparr>vgroups = [\<lparr>vg_key = 0, channel_names = [''S''],
                     fragments = [\<lparr>master = [0, 1, 2], columns = [([20, 21, 22 :: int], None)]\<rparr>]\<rparr>],
         start_time = 0, copy_on_get = True\<rparr>"
  have h: "[?A, ?B] \<noteq> [] \<and> [''S''] \<noteq> [] \<and> list_all (single_group_file 0 [''S'']) [?A, ?B] \<and>
      (\<forall>k. \<not> (\<lambda>k. False) k)"
    by (simp add: single_group_file_def wf_fragment_def)
  have len: "length (concat (map file_timestamps [?A, ?B])) = 8"
    by (simp add: file_timestamps_def)
  obtain og where og: "fst (concatenate int (\<lambda>k. False) [?A, ?B] False False False) = Inr (Some [og])"
      "sorted (og_master og)"
      "length (og_master og) = length (concat (map file_timestamps [?A, ?B]))"
    using concatenate_monotonic [of "[?A, ?B]" "[''S'']" 0 "\<lambda>k. False" int False False False
        "[0, 1, 2]" 4] h
    by blast
  have "length (og_master og) = 8"
    using og(3) len by (simp only:)
  then have "\<exists>og. fst (concatenate int (\<lambda>k. False) [?A, ?B] False False False) = Inr (Some [og]) \<and>
       sorted (og_master og) \<and> length (og_master og) = 8"
    using og(1,2) by blast
  moreover have "hd (fst (shift_master 0 False (Some 4) [0, 1, 2])) = 5"
    using concatenate_monotonic [of "[?A, ?B]" "[''S'']" 0 "\<lambda>k. False" int False False False
        "[0, 1, 2]" 4] by simp
  moreover have "fst (shift_master 0 False (Some 4) [5, 6]) = [5, 6]"
    using concatenate_monotonic [of "[?A, ?B]" "[''S'']" 0 "\<lambda>k. False" int False False False
        "[5, 6]" 4] by simp
  ultimately show ?thesis by blast
qed

text \<open>
  The claim as stated fails for a file that is read in more than one fragment: the second
  file holds the time stamps \<open>[0,1,2]\<close> in the fragments \<open>[0]\<close> and \<open>[1,2]\<close>; its first
  sampling interval is 1, but its first fragment has a single sample and is moved by the
  delta 0.001, so the file starts at 4.001 and not at 5.
\<close>

theorem concatenate_delta_counterexample:
  "fst (concatenate int (\<lambda>k. False)
       [\<lparr>vgroups = [\<lparr>vg_key = 0, channel_names = [''S''],
                     fragments = [\<lparr>master = [0, 1, 2, 3, 4],
                                   columns = [([10, 11, 12, 13, 14 :: int], None)]\<rparr>]\<rparr>],
         start_time = 0, copy_on_get = True\<rparr>,
        \<lparr>vgroups = [\<lparr>vg_key = 0, channel_names = [''S''],
                     fragments = [\<lparr>master = [0], columns = [([20], None)]\<rparr>,
                                  \<lparr>master = [1, 2], columns = [([21, 22], None)]\<rparr>]\<rparr>],
         start_time = 0, copy_on_get = True\<rparr>] False False False)
   = Inr (Some [\<lparr>og_source = 0,
                 og_master = [0, 1, 2, 3, 4, 4001 / 1000, 5001 / 1000, 6001 / 1000],
                 og_columns = [([10, 11, 12, 13, 14, 20, 21, 22], None)]\<rparr>])"
  by (simp add: concatenate_def cat_file_def cat_group_def cat_group_rest_def cat_first_def
      cat_next_def first_signals_def append_group_def mdf_extend_def extend_group_def
      extend_bits_def shift_master_def Let_def)

subsection \<open>\<^verbatim>\<open>MDF.cut\<close>: window and boundary samples\<close>

lemma timestamps_Signal_cut:
  "timestamps (Signal_cut interp start stop include_ends sig)
   = cut_times include_ends start stop (timestamps sig)"
  by (simp add: Signal_cut_def cut_times_def Let_def)

lemma update_signals_full:
  "length signals = length cols \<Longrightarrow>
   update_signals (signals :: 'v signal list) m cols = first_signals \<lparr>master = m, columns = cols\<rparr>"
proof (induction signals cols rule: list_induct2)
  case Nil
  then show ?case by (simp add: update_signals_def first_signals_def)
next
  case (Cons sig signals c cols)
  then show ?case by (cases c) (simp add: update_signals_def first_signals_def)
qed

lemma length_first_signals [simp]: "length (first_signals f) = length (columns f)"
  by (simp add: first_signals_def)

lemma cut_fragment_piece:
  assumes "length (columns f) = n" and "0 < n" and "0 < j \<longrightarrow> length (cs_signals s) = n"
  shows "\<exists>sg. length sg = n \<and>
     cut_fragment interp start stop include_ends False d key j f s =
       (case piece interp start stop include_ends f of
          PBreak \<Rightarrow> Brk (s\<lparr>cs_signals := sg\<rparr>)
        | PSkip \<Rightarrow> Nxt (s\<lparr>cs_signals := sg\<rparr>)
        | PEmit m sigs \<Rightarrow> Nxt (emit False d key m (s\<lparr>cs_signals := sigs\<rparr>)))"
proof -
  have cne: "columns f \<noteq> []" using assms(1,2) by auto
  define s1 where "s1 = (if j = 0 then s\<lparr>cs_signals := first_signals f\<rparr> else s)"
  have l1: "length (cs_signals s1) = n" using assms by (simp add: s1_def)
  have s1eq: "s1 = s\<lparr>cs_signals := cs_signals s1\<rparr>" by (simp add: s1_def)
  have upd: "update_signals (cs_signals s1) (master f) (columns f) = first_signals f"
    using l1 assms(1) by (simp add: update_signals_full) (simp add: first_signals_def)
  define s2 where "s2 = s\<lparr>cs_signals := first_signals f\<rparr>"
  have s2eq: "(if j \<noteq> 0 then s1\<lparr>cs_signals := update_signals (cs_signals s1) (master f) (columns f)\<rparr> else s1) = s2"
  proof (cases "j = 0")
    case True
    then show ?thesis by (simp add: s1_def s2_def)
  next
    case False
    then have "s1 = s" by (simp add: s1_def)
    then show ?thesis using False upd by (simp add: s2_def)
  qed
  show ?thesis
  proof (cases "master f = []")
    case True
    then have "cut_fragment interp start stop include_ends False d key j f s = Nxt s1"
      using cne by (simp add: cut_fragment_def s1_def Let_def)
    then show ?thesis using True l1 s1eq by (auto simp: piece_def intro!: exI [of _ "cs_signals s1"])
  next
    case False
    show ?thesis
    proof (cases "fragment_window start stop (master f)")
      case WBreak
      then have "cut_fragment interp start stop include_ends False d key j f s = Brk s1"
        using cne False by (simp add: cut_fragment_def s1_def Let_def)
      then show ?thesis using False WBreak l1 s1eq
        by (auto simp: piece_def intro!: exI [of _ "cs_signals s1"])
    next
      case WContinue
      then have "cut_fragment interp start stop include_ends False d key j f s = Nxt s1"
        using cne False by (simp add: cut_fragment_def s1_def Let_def)
      then show ?thesis using False WContinue l1 s1eq
        by (auto simp: piece_def intro!: exI [of _ "cs_signals s1"])
    next
      case (Window fs fe nc)
      define m' where "m' = cut_times include_ends fs fe (master f)"
      have cf: "cut_fragment interp start stop include_ends False d key j f s =
          (if nc then
             (if m' = [] then Nxt s2
              else Nxt (emit False d key m'
                     (s2\<lparr>cs_signals := map (Signal_cut interp (Some (hd m')) (Some (last m')) include_ends)
                                            (cs_signals s2)\<rparr>)))
           else Nxt (emit False d key (master f) s2))"
        unfolding cut_fragment_def Let_def s1_def [symmetric] s2eq
        using cne False Window by (simp add: timestamps_Signal_cut m'_def)
      have pc: "piece interp start stop include_ends f =
          (if nc then
             (if m' = [] then PSkip
              else PEmit m' (map (Signal_cut interp (Some (hd m')) (Some (last m')) include_ends)
                                      (first_signals f)))
           else PEmit (master f) (first_signals f))"
        using False Window by (simp add: piece_def Let_def m'_def)
      show ?thesis
        using assms(1)
        by (auto simp: cf pc s2_def intro!: exI [of _ "first_signals f"])
    qed
  qed
qed

lemma emitted_Nil [simp]: "emitted interp start stop include_ends [] = []"
  by (simp add: emitted_def)

lemma emitted_Cons:
  "emitted interp start stop include_ends (f # frs) =
     (case piece interp start stop include_ends f of
        PBreak \<Rightarrow> []
      | PSkip \<Rightarrow> emitted interp start stop include_ends frs
      | PEmit m sigs \<Rightarrow> (m, sigs) # emitted interp start stop include_ends frs)"
  by (simp add: emitted_def split: piece.splits)

lemma piece_emit_length:
  "piece interp start stop include_ends f = PEmit m sigs \<Longrightarrow> length sigs = length (columns f)"
  by (auto simp: piece_def Let_def split: if_splits window.splits)

lemma emit_first:
  "cs_idx s = 0 \<Longrightarrow>
   emit False d key m s =
     s\<lparr>cs_cg_nr := length (cs_out s), cs_out := cs_out s @ [first_group key (cs_signals s)],
       cs_named := True, cs_idx := 1\<rparr>"
  by (simp add: emit_def append_group_def first_group_def signal_columns_def Let_def)

lemma emit_later:
  "cs_idx s \<noteq> 0 \<Longrightarrow> cs_out s = pre @ [og] \<Longrightarrow> cs_cg_nr s = length pre \<Longrightarrow>
   emit False d key m s =
     s\<lparr>cs_out := pre @ [ext (m, cs_signals s) og], cs_idx := cs_idx s + 1\<rparr>"
  by (simp add: emit_def mdf_extend_def ext_def Let_def)

lemma loop_later:
  assumes "list_all (\<lambda>f. length (columns f) = n) frs" and "0 < n"
    and "length (cs_signals s) = n" and "cs_idx s \<noteq> 0"
    and "cs_out s = pre @ [og]" and "cs_cg_nr s = length pre"
  shows "cs_out (cut_fragments interp start stop include_ends False d key j frs s)
           = pre @ [fold ext (emitted interp start stop include_ends frs) og] \<and>
         cs_idx (cut_fragments interp start stop include_ends False d key j frs s) \<noteq> 0 \<and>
         cs_named (cut_fragments interp start stop include_ends False d key j frs s) = cs_named s"
  using assms
proof (induction frs arbitrary: j s og)
  case Nil
  then show ?case by simp
next
  case (Cons f frs)
  have n: "length (columns f) = n" and rest: "list_all (\<lambda>f. length (columns f) = n) frs"
    using Cons.prems(1) by simp_all
  obtain sg where sg: "length sg = n"
    "cut_fragment interp start stop include_ends False d key j f s =
       (case piece interp start stop include_ends f of
          PBreak \<Rightarrow> Brk (s\<lparr>cs_signals := sg\<rparr>)
        | PSkip \<Rightarrow> Nxt (s\<lparr>cs_signals := sg\<rparr>)
        | PEmit m sigs \<Rightarrow> Nxt (emit False d key m (s\<lparr>cs_signals := sigs\<rparr>)))"
    using cut_fragment_piece [OF n Cons.prems(2), of j s interp start stop include_ends d key]
      Cons.prems(3) by auto
  show ?case
  proof (cases "piece interp start stop include_ends f")
    case PBreak
    then show ?thesis using sg(2) Cons.prems(4,5) by (simp add: emitted_Cons)
  next
    case PSkip
    then show ?thesis
      using sg Cons.prems(2,4,5,6) Cons.IH [OF rest, of "s\<lparr>cs_signals := sg\<rparr>" og "Suc j"]
      by (simp add: emitted_Cons)
  next
    case (PEmit m sigs)
    have ls: "length sigs = n" using piece_emit_length [OF PEmit] n by simp
    have e: "emit False d key m (s\<lparr>cs_signals := sigs\<rparr>)
        = s\<lparr>cs_signals := sigs, cs_out := pre @ [ext (m, sigs) og], cs_idx := cs_idx s + 1\<rparr>"
      using emit_later [of "s\<lparr>cs_signals := sigs\<rparr>" pre og d key m] Cons.prems(4,5,6) by simp
    show ?thesis
      using sg(2) PEmit ls Cons.prems(2,6)
        Cons.IH [OF rest, of "s\<lparr>cs_signals := sigs, cs_out := pre @ [ext (m, sigs) og], cs_idx := cs_idx s + 1\<rparr>"
          "ext (m, sigs) og" "Suc j"]
      by (simp add: emitted_Cons e)
  qed
qed

lemma loop_first:
  assumes "list_all (\<lambda>f. length (columns f) = n) frs" and "0 < n"
    and "0 < j \<longrightarrow> length (cs_signals s) = n" and "cs_idx s = 0"
  shows "cs_out (cut_fragments interp start stop include_ends False d key j frs s)
           = cs_out s @ build key (emitted interp start stop include_ends frs) \<and>
         (cs_idx (cut_fragments interp start stop include_ends False d key j frs s) = 0
            \<longleftrightarrow> emitted interp start stop include_ends frs = []) \<and>
         cs_named (cut_fragments interp start stop include_ends False d key j frs s)
           = (cs_named s \<or> emitted interp start stop include_ends frs \<noteq> []) \<and>
         (frs \<noteq> [] \<and> emitted interp start stop include_ends frs = [] \<longrightarrow>
            length (cs_signals (cut_fragments interp start stop include_ends False d key j frs s)) = n)"
  using assms
proof (induction frs arbitrary: j s)
  case Nil
  then show ?case by (simp add: build_def)
next
  case (Cons f frs)
  have n: "length (columns f) = n" and rest: "list_all (\<lambda>f. length (columns f) = n) frs"
    using Cons.prems(1) by simp_all
  obtain sg where sg: "length sg = n"
    "cut_fragment interp start stop include_ends False d key j f s =
       (case piece interp start stop include_ends f of
          PBreak \<Rightarrow> Brk (s\<lparr>cs_signals := sg\<rparr>)
        | PSkip \<Rightarrow> Nxt (s\<lparr>cs_signals := sg\<rparr>)
        | PEmit m sigs \<Rightarrow> Nxt (emit False d key m (s\<lparr>cs_signals := sigs\<rparr>)))"
    using cut_fragment_piece [OF n Cons.prems(2,3), of interp start stop include_ends d key]
    by auto
  show ?case
  proof (cases "piece interp start stop include_ends f")
    case PBreak
    then show ?thesis using sg Cons.prems(4) by (simp add: emitted_Cons build_def)
  next
    case PSkip
    have ih: "cs_out (cut_fragments interp start stop include_ends False d key (Suc j) frs (s\<lparr>cs_signals := sg\<rparr>))
           = cs_out s @ build key (emitted interp start stop include_ends frs) \<and>
         (cs_idx (cut_fragments interp start stop include_ends False d key (Suc j) frs (s\<lparr>cs_signals := sg\<rparr>)) = 0
            \<longleftrightarrow> emitted interp start stop include_ends frs = []) \<and>
         cs_named (cut_fragments interp start stop include_ends False d key (Suc j) frs (s\<lparr>cs_signals := sg\<rparr>))
           = (cs_named s \<or> emitted interp start stop include_ends frs \<noteq> []) \<and>
         (frs \<noteq> [] \<and> emitted interp start stop include_ends frs = [] \<longrightarrow>
            length (cs_signals (cut_fragments interp start stop include_ends False d key (Suc j) frs (s\<lparr>cs_signals := sg\<rparr>))) = n)"
      using Cons.IH [OF rest Cons.prems(2), of "Suc j" "s\<lparr>cs_signals := sg\<rparr>"] sg(1) Cons.prems(4)
      by simp
    show ?thesis
    proof (cases frs)
      case Nil
      then show ?thesis using sg PSkip Cons.prems(4) by (simp add: emitted_Cons build_def)
    next
      case (Cons a list)
      then show ?thesis using sg(2) PSkip ih by (simp add: emitted_Cons)
    qed
  next
    case (PEmit m sigs)
    have ls: "length sigs = n" using piece_emit_length [OF PEmit] n by simp
    define s1 where "s1 = s\<lparr>cs_signals := sigs, cs_cg_nr := length (cs_out s),
        cs_out := cs_out s @ [first_group key sigs], cs_named := True, cs_idx := 1\<rparr>"
    have e: "emit False d key m (s\<lparr>cs_signals := sigs\<rparr>) = s1"
      using emit_first [of "s\<lparr>cs_signals := sigs\<rparr>" d key m] Cons.prems(4) by (simp add: s1_def)
    have "cs_out (cut_fragments interp start stop include_ends False d key (Suc j) frs s1)
           = cs_out s @ [fold ext (emitted interp start stop include_ends frs) (first_group key sigs)] \<and>
         cs_idx (cut_fragments interp start stop include_ends False d key (Suc j) frs s1) \<noteq> 0 \<and>
         cs_named (cut_fragments interp start stop include_ends False d key (Suc j) frs s1) = cs_named s1"
      using loop_later [OF rest Cons.prems(2), of s1 "cs_out s" "first_group key sigs"] ls
      by (simp add: s1_def)
    then show ?thesis
      using sg(2) PEmit by (simp add: emitted_Cons e build_def s1_def)
  qed
qed

lemma zero_group_zero_cycles:
  "zero_group key (length sg) (first_group key (map zero_cycles sg))"
  by (induction sg)
     (auto simp: zero_group_def first_group_def signal_columns_def zero_cycles_def
       split: option.splits)

lemma cut_group_result:
  assumes "channel_names g \<noteq> []" and "shaped_group g"
  shows "\<exists>G. group_result interp start stop include_ends g G \<and>
           cs_out (cut_group interp start stop include_ends False d g s) = cs_out s @ G \<and>
           cs_named (cut_group interp start stop include_ends False d g s) = (cs_named s \<or> G \<noteq> [])"
proof -
  let ?n = "length (channel_names g)"
  let ?es = "emitted interp start stop include_ends (fragments g)"
  define s0 where "s0 = s\<lparr>cs_idx := 0, cs_signals := []\<rparr>"
  define s1 where "s1 = cut_fragments interp start stop include_ends False d (vg_key g) 0 (fragments g) s0"
  have n: "0 < ?n" using assms(1) by simp
  have sh: "list_all (\<lambda>f. length (columns f) = ?n) (fragments g)"
    using assms(2) by (simp add: shaped_group_def)
  have loop: "cs_out s1 = cs_out s @ build (vg_key g) ?es" "cs_idx s1 = 0 \<longleftrightarrow> ?es = []"
    "cs_named s1 = (cs_named s \<or> ?es \<noteq> [])"
    "fragments g \<noteq> [] \<and> ?es = [] \<longrightarrow> length (cs_signals s1) = ?n"
    using loop_first [OF sh n, of 0 s0 interp start stop include_ends d "vg_key g"]
    by (simp_all add: s0_def s1_def)
  have cg: "cut_group interp start stop include_ends False d g s =
      (if cs_idx s1 = 0 \<and> cs_signals s1 \<noteq> [] then
         s1\<lparr>cs_signals := map zero_cycles (cs_signals s1),
            cs_cg_nr := length (cs_out s1),
            cs_out := cs_out s1 @ [first_group (vg_key g) (map zero_cycles (cs_signals s1))],
            cs_named := True\<rparr>
       else s1)"
    by (simp add: cut_group_def Let_def s0_def s1_def append_group_def first_group_def
        signal_columns_def)
  show ?thesis
  proof (cases "?es = []")
    case False
    then have "group_result interp start stop include_ends g (build (vg_key g) ?es)"
      using assms(1) by (simp add: group_result_def)
    moreover have "build (vg_key g) ?es \<noteq> []"
      using False by (simp add: build_def split: list.splits)
    ultimately show ?thesis using False loop by (auto simp: cg)
  next
    case es: True
    show ?thesis
    proof (cases "fragments g = []")
      case True
      then have "s1 = s0" by (simp add: s1_def)
      then have "cut_group interp start stop include_ends False d g s = s0"
        by (simp add: cg s0_def)
      moreover have "group_result interp start stop include_ends g []"
        using assms(1) True by (simp add: group_result_def)
      ultimately show ?thesis by (auto simp: s0_def intro!: exI [of _ "[]"])
    next
      case False
      then have ls: "length (cs_signals s1) = ?n" using loop(4) es by simp
      then have ne: "cs_signals s1 \<noteq> []" using n by auto
      let ?og = "first_group (vg_key g) (map zero_cycles (cs_signals s1))"
      have "zero_group (vg_key g) ?n ?og"
        using zero_group_zero_cycles [of "vg_key g" "cs_signals s1"] ls by simp
      then have "group_result interp start stop include_ends g [?og]"
        using assms(1) es False by (simp add: group_result_def)
      moreover have "cs_out (cut_group interp start stop include_ends False d g s) = cs_out s @ [?og]"
        "cs_named (cut_group interp start stop include_ends False d g s)"
        using loop es ne by (simp_all add: cg build_def)
      ultimately show ?thesis by (auto intro!: exI [of _ "[?og]"])
    qed
  qed
qed

lemma cut_groups_result:
  assumes "list_all shaped_group gs"
    and "cut_groups interp start stop include_ends False d terminate i gs s = Some s'"
  shows "\<exists>Gs. list_all2 (group_result interp start stop include_ends) gs Gs \<and>
           cs_out s' = cs_out s @ concat Gs \<and> cs_named s' = (cs_named s \<or> concat Gs \<noteq> [])"
  using assms
proof (induction gs arbitrary: i s)
  case Nil
  then show ?case by simp
next
  case (Cons g gs)
  have sh: "shaped_group g" and rest: "list_all shaped_group gs"
    using Cons.prems(1) by simp_all
  show ?case
  proof (cases "channel_names g = []")
    case True
    then have "cut_groups interp start stop include_ends False d terminate (Suc i) gs s = Some s'"
      using Cons.prems(2) by simp
    then obtain Gs where "list_all2 (group_result interp start stop include_ends) gs Gs"
        "cs_out s' = cs_out s @ concat Gs" "cs_named s' = (cs_named s \<or> concat Gs \<noteq> [])"
      using Cons.IH [OF rest] by blast
    moreover have "group_result interp start stop include_ends g []"
      using True by (simp add: group_result_def)
    ultimately show ?thesis by (auto intro!: exI [of _ "[] # Gs"])
  next
    case False
    define s1 where "s1 = cut_group interp start stop include_ends False d g s"
    obtain G where G: "group_result interp start stop include_ends g G"
        "cs_out s1 = cs_out s @ G" "cs_named s1 = (cs_named s \<or> G \<noteq> [])"
      using cut_group_result [OF False sh, of interp start stop include_ends d s]
      by (auto simp: s1_def)
    have "cut_groups interp start stop include_ends False d terminate (Suc i) gs s1 = Some s'"
      using Cons.prems(2) False by (simp add: Let_def s1_def split: if_splits)
    then obtain Gs where Gs: "list_all2 (group_result interp start stop include_ends) gs Gs"
        "cs_out s' = cs_out s1 @ concat Gs" "cs_named s' = (cs_named s1 \<or> concat Gs \<noteq> [])"
      using Cons.IH [OF rest] by blast
    show ?thesis using G Gs by (auto intro!: exI [of _ "G # Gs"])
  qed
qed

lemma cut_groups_Some:
  "\<forall>k. \<not> terminate k \<Longrightarrow>
   \<exists>s'. cut_groups interp start stop include_ends tfz d terminate i gs s = Some s'"
proof (induction gs arbitrary: i s)
  case Nil
  then show ?case by simp
next
  case (Cons g gs)
  have nt: "\<not> terminate i" using Cons.prems by blast
  show ?case using Cons.IH [OF Cons.prems] nt by (simp add: Let_def)
qed

lemma cut_result:
  assumes "whence \<noteq> 1" and "list_all shaped_group (vgroups self)"
    and "fst (cut interp terminate self start stop whence include_ends False) = Inr (Some out)"
  shows "\<exists>Gs. list_all2 (group_result interp start stop include_ends) (vgroups self) Gs \<and>
           out = concat Gs"
proof -
  define s0 :: "'a cut_state" where
    "s0 = \<lparr>cs_idx = 0, cs_signals = [], cs_cg_nr = 0, cs_out = [], cs_named = False\<rparr>"
  have d: "(case start of None \<Rightarrow> 0 | Some d \<Rightarrow> if False then d else (0::rat)) = 0"
    by (simp split: option.splits)
  obtain s' where s': "cut_groups interp start stop include_ends False 0 terminate 0 (vgroups self) s0
      = Some s'"
      and out: "out = cs_out s'"
    using assms(1,3) by (auto simp: cut_def Let_def s0_def d split: option.splits if_splits)
  obtain Gs where "list_all2 (group_result interp start stop include_ends) (vgroups self) Gs"
      "cs_out s' = cs_out s0 @ concat Gs"
    using cut_groups_result [OF assms(2) s'] by blast
  then show ?thesis using out by (auto simp: s0_def)
qed

lemma cut_success:
  assumes "whence \<noteq> 1" and "list_all shaped_group (vgroups self)" and "\<forall>k. \<not> terminate k"
  shows "\<exists>Gs. list_all2 (group_result interp start stop include_ends) (vgroups self) Gs \<and>
           fst (cut interp terminate self start stop whence include_ends False)
             = (if concat Gs = [] then Inl UnboundLocalError else Inr (Some (concat Gs)))"
proof -
  define s0 :: "'a cut_state" where
    "s0 = \<lparr>cs_idx = 0, cs_signals = [], cs_cg_nr = 0, cs_out = [], cs_named = False\<rparr>"
  have d: "(case start of None \<Rightarrow> 0 | Some d \<Rightarrow> if False then d else (0::rat)) = 0"
    by (simp split: option.splits)
  obtain s' where s': "cut_groups interp start stop include_ends False 0 terminate 0 (vgroups self) s0
      = Some s'"
    using cut_groups_Some [OF assms(3)] by blast
  obtain Gs where Gs: "list_all2 (group_result interp start stop include_ends) (vgroups self) Gs"
      "cs_out s' = cs_out s0 @ concat Gs" "cs_named s' = (cs_named s0 \<or> concat Gs \<noteq> [])"
    using cut_groups_result [OF assms(2) s'] by blast
  have "fst (cut interp terminate self start stop whence include_ends False)
      = (if cs_named s' then Inr (Some (cs_out s')) else Inl UnboundLocalError)"
    using assms(1) s' by (simp add: cut_def Let_def s0_def d)
  then show ?thesis using Gs by (auto simp: s0_def intro!: exI [of _ Gs])
qed

lemma sorted_hd_min: "sorted (m :: rat list) \<Longrightarrow> t \<in> set m \<Longrightarrow> hd m \<le> t"
  by (cases m) auto

lemma sorted_last_max: "sorted (m :: rat list) \<Longrightarrow> t \<in> set m \<Longrightarrow> t \<le> last m"
  by (cases m rule: rev_cases) (auto simp: sorted_append)

lemma takeWhile_all_length: "length (takeWhile P xs) = length xs \<longleftrightarrow> (\<forall>x \<in> set xs. P x)"
  by (induction xs) auto

lemma takeWhile_none: "xs \<noteq> [] \<Longrightarrow> takeWhile P xs = [] \<longleftrightarrow> \<not> P (hd xs)"
  by (cases xs) auto

lemma inside_interval_bounds:
  "sorted m \<Longrightarrow> inside_interval x m \<Longrightarrow> hd m < x \<and> x < last m \<and> x \<notin> set m"
proof (induction x m rule: inside_interval.induct)
  case (1 b x y ys)
  show ?case
  proof (cases "x < b \<and> b < y")
    case True
    have "y \<le> last (y # ys)" using 1(2) by (intro sorted_last_max) auto
    then have l: "b < last (x # y # ys)" using True by simp
    have "\<forall>t \<in> set (y # ys). y \<le> t" using 1(2) by auto
    then have "b \<notin> set (x # y # ys)" using True by auto
    then show ?thesis using True l by simp
  next
    case False
    then have "inside_interval b (y # ys)" using 1(3) by auto
    moreover have "sorted (y # ys)" using 1(2) by simp
    ultimately have "hd (y # ys) < b \<and> b < last (y # ys) \<and> b \<notin> set (y # ys)"
      using 1(1) by blast
    moreover have "x \<le> y" using 1(2) by simp
    ultimately show ?thesis by auto
  qed
qed simp_all

lemma in_window_convex:
  "in_window start stop lo \<Longrightarrow> in_window start stop hi \<Longrightarrow> lo \<le> t \<Longrightarrow> t \<le> hi \<Longrightarrow>
   in_window start stop t"
  by (auto simp: in_window_def split: option.splits)

lemma window_sound:
  assumes "m \<noteq> []" and "sorted m" and "fragment_window start stop m = Window fs fe nc"
  shows "(\<forall>t. in_window fs fe t \<longrightarrow> in_window start stop t) \<and>
         (\<not> nc \<longrightarrow> (\<forall>t \<in> set m. in_window start stop t))"
proof -
  have lo: "\<And>a t. length (takeWhile (\<lambda>x. x < max a (hd m)) m) = 0 \<Longrightarrow> t \<in> set m \<Longrightarrow> a \<le> t"
  proof -
    fix a t assume "length (takeWhile (\<lambda>x. x < max a (hd m)) m) = 0" "t \<in> set m"
    then have "\<not> hd m < max a (hd m)" using assms(1) by (simp add: takeWhile_none)
    then have "a \<le> hd m" by auto
    then show "a \<le> t" using sorted_hd_min [OF assms(2) \<open>t \<in> set m\<close>] by simp
  qed
  have hi: "\<And>b t. length (takeWhile (\<lambda>x. x \<le> min b (last m)) m) = length m \<Longrightarrow> t \<in> set m \<Longrightarrow> t \<le> b"
    by (auto simp: takeWhile_all_length)
  show ?thesis
  proof (cases start)
    case sn: None
    show ?thesis
    proof (cases stop)
      case None
      then show ?thesis using assms(3) sn by (auto simp: fragment_window_def in_window_def)
    next
      case (Some b)
      have 1: "fs = None" "fe = Some (min b (last m))"
        "nc = (length (takeWhile (\<lambda>x. x \<le> min b (last m)) m) \<noteq> length m)"
        using assms(3) sn Some
        by (auto simp: fragment_window_def Let_def searchsorted_right_def split: if_splits)
      have "\<forall>t. in_window fs fe t \<longrightarrow> in_window start stop t"
        by (simp add: 1 sn Some in_window_def)
      moreover have "\<not> nc \<longrightarrow> (\<forall>t \<in> set m. in_window start stop t)"
        using hi [of b] by (simp add: 1 sn Some in_window_def)
      ultimately show ?thesis by blast
    qed
  next
    case sa: (Some a)
    show ?thesis
    proof (cases stop)
      case None
      have 1: "fs = Some (max a (hd m))" "fe = None"
        "nc = (length (takeWhile (\<lambda>x. x < max a (hd m)) m) \<noteq> 0)"
        using assms(3) sa None
        by (auto simp: fragment_window_def Let_def searchsorted_left_def split: if_splits)
      have "\<forall>t. in_window fs fe t \<longrightarrow> in_window start stop t"
        by (simp add: 1 sa None in_window_def)
      moreover have "\<not> nc \<longrightarrow> (\<forall>t \<in> set m. in_window start stop t)"
        using lo [of a] by (simp add: 1 sa None in_window_def)
      ultimately show ?thesis by blast
    next
      case (Some b)
      have 1: "fs = Some (max a (hd m))" "fe = Some (min b (last m))"
        "nc = (\<not> (length (takeWhile (\<lambda>x. x < max a (hd m)) m) = 0 \<and>
                  length (takeWhile (\<lambda>x. x \<le> min b (last m)) m) = length m))"
        using assms(3) sa Some
        by (auto simp: fragment_window_def Let_def searchsorted_left_def searchsorted_right_def
            split: if_splits)
      have "\<forall>t. in_window fs fe t \<longrightarrow> in_window start stop t"
        by (simp add: 1 sa Some in_window_def)
      moreover have "\<not> nc \<longrightarrow> (\<forall>t \<in> set m. in_window start stop t)"
        using lo [of a] hi [of b] by (simp add: 1 sa Some in_window_def)
      ultimately show ?thesis by blast
    qed
  qed
qed

lemma boundary_in_window:
  "t \<in> set (boundary include_ends start stop ts bound) \<Longrightarrow> in_window start stop t"
  by (auto simp: boundary_def split: option.splits if_splits)

lemma boundary_inside:
  "t \<in> set (boundary include_ends start stop ts bound) \<Longrightarrow> inside_interval t ts"
  by (auto simp: boundary_def split: option.splits if_splits)

lemma cut_times_in_window:
  "t \<in> set (cut_times include_ends start stop ts) \<Longrightarrow> in_window start stop t"
  by (auto simp: cut_times_def split: if_splits dest: boundary_in_window)

lemma piece_in_window:
  assumes "sorted (master f)" and "piece interp start stop include_ends f = PEmit m sigs"
  shows "(\<forall>t \<in> set m. in_window start stop t) \<and>
         (\<forall>sig \<in> set sigs. \<forall>t \<in> set (timestamps sig). in_window start stop t)"
proof -
  have ne: "master f \<noteq> []" using assms(2) by (auto simp: piece_def)
  obtain fs fe nc where w: "fragment_window start stop (master f) = Window fs fe nc"
    using assms(2) ne by (cases "fragment_window start stop (master f)") (auto simp: piece_def)
  note ws = window_sound [OF ne assms(1) w]
  show ?thesis
  proof (cases nc)
    case False
    then have "m = master f" "sigs = first_signals f"
      using assms(2) ne w by (simp_all add: piece_def)
    then show ?thesis using ws False by (auto simp: first_signals_def)
  next
    case True
    define m' where "m' = cut_times include_ends fs fe (master f)"
    have m: "m = m'" "m' \<noteq> []"
      "sigs = map (Signal_cut interp (Some (hd m')) (Some (last m')) include_ends) (first_signals f)"
      using assms(2) ne w True by (auto simp: piece_def Let_def m'_def split: if_splits)
    have inw: "\<forall>t \<in> set m'. in_window start stop t"
      using ws cut_times_in_window by (auto simp: m'_def)
    then have ends: "in_window start stop (hd m')" "in_window start stop (last m')"
      using m(2) by simp_all
    have "in_window start stop t"
      if "sig \<in> set sigs" "t \<in> set (timestamps sig)" for sig t
    proof -
      have "in_window (Some (hd m')) (Some (last m')) t"
        using that by (auto simp: m(3) timestamps_Signal_cut dest: cut_times_in_window)
      then show ?thesis
        using in_window_convex [OF ends, of t] by (simp add: in_window_def)
    qed
    then show ?thesis using inw m(1) by blast
  qed
qed

lemma boundary_cases:
  "boundary include_ends start stop ts bound = [] \<or>
   (\<exists>b. bound = Some b \<and> boundary include_ends start stop ts bound = [b] \<and> include_ends \<and>
        inside_interval b ts \<and> in_window start stop b)"
  by (auto simp: boundary_def split: option.splits)

lemma cut_times_sorted:
  assumes "sorted ts"
  shows "sorted (cut_times include_ends start stop ts)"
proof -
  let ?lead = "boundary include_ends start stop ts start"
  let ?mid = "filter (in_window start stop) ts"
  let ?trail = "(if stop = start then [] else boundary include_ends start stop ts stop)"
  have 1: "sorted ?lead" using boundary_cases [of include_ends start stop ts start] by auto
  have 2: "sorted ?mid" using assms by (rule sorted_wrt_filter)
  have 3: "sorted ?trail" using boundary_cases [of include_ends start stop ts stop] by auto
  have 4: "x \<le> y" if "x \<in> set ?lead" "y \<in> set ?mid \<union> set ?trail" for x y
  proof -
    have "start = Some x" using that(1) by (auto simp: boundary_def split: option.splits if_splits)
    moreover have "in_window start stop y"
      using that(2) by (auto dest: boundary_in_window split: if_splits)
    ultimately show ?thesis by (simp add: in_window_def)
  qed
  have 5: "x \<le> y" if "x \<in> set ?mid" "y \<in> set ?trail" for x y
  proof -
    have "stop = Some y" using that(2) by (auto simp: boundary_def split: option.splits if_splits)
    moreover have "in_window start stop x" using that(1) by simp
    ultimately show ?thesis by (simp add: in_window_def split: option.splits)
  qed
  show ?thesis
    unfolding cut_times_def sorted_append set_append using 1 2 3 4 5 by (intro conjI ballI) blast+
qed

lemma cut_times_hull:
  assumes "sorted ts" and "t \<in> set (cut_times include_ends start stop ts)"
  shows "hd ts \<le> t \<and> t \<le> last ts"
proof -
  have "t \<in> set ts \<or> inside_interval t ts"
    using assms(2) by (auto simp: cut_times_def dest: boundary_inside split: if_splits)
  then show ?thesis
    using inside_interval_bounds [OF assms(1), of t] sorted_hd_min [OF assms(1), of t]
      sorted_last_max [OF assms(1), of t] by auto
qed

lemma cut_times_lead:
  "include_ends \<Longrightarrow> inside_interval b ts \<Longrightarrow> in_window (Some b) stop b \<Longrightarrow>
   b \<in> set (cut_times include_ends (Some b) stop ts)"
  by (simp add: cut_times_def boundary_def)

lemma cut_times_trail:
  "include_ends \<Longrightarrow> inside_interval b ts \<Longrightarrow> in_window start (Some b) b \<Longrightarrow>
   b \<in> set (cut_times include_ends start (Some b) ts)"
  by (cases "start = Some b") (simp_all add: cut_times_def boundary_def)

lemma sorted_hd_eq:
  "sorted (m :: rat list) \<Longrightarrow> b \<in> set m \<Longrightarrow> \<forall>t \<in> set m. b \<le> t \<Longrightarrow> hd m = b"
  using sorted_hd_min [of m b] by (cases m) auto

lemma sorted_last_eq:
  "sorted (m :: rat list) \<Longrightarrow> b \<in> set m \<Longrightarrow> \<forall>t \<in> set m. t \<le> b \<Longrightarrow> last m = b"
proof -
  assume a: "sorted m" "b \<in> set m" "\<forall>t \<in> set m. t \<le> b"
  then have "m \<noteq> []" by auto
  then have "last m \<in> set m" by simp
  then have "last m \<le> b" using a(3) by blast
  moreover have "b \<le> last m" using a(1,2) by (rule sorted_last_max)
  ultimately show ?thesis by simp
qed

lemma sorted_concat_member:
  "sorted (concat (map master frs)) \<Longrightarrow> f \<in> set frs \<Longrightarrow> sorted (master f)"
  by (induction frs) (auto simp: sorted_append)

lemma piece_bound:
  assumes "sorted (master f)" and "include_ends" and "inside_interval b (master f)"
    and "start = Some b \<or> stop = Some b"
    and "\<forall>a c. start = Some a \<and> stop = Some c \<longrightarrow> a \<le> c"
  shows "\<exists>m sigs. piece interp start stop include_ends f = PEmit m sigs \<and> b \<in> set m \<and>
           (\<forall>sig \<in> set sigs. b \<in> set (timestamps sig))"
proof -
  let ?m = "master f"
  have ib: "hd ?m < b" "b < last ?m" "b \<notin> set ?m"
    using inside_interval_bounds [OF assms(1,3)] by simp_all
  have ne: "?m \<noteq> []" using assms(3) by auto
  have tw1: "length (takeWhile (\<lambda>x. x < b) ?m) \<noteq> 0"
    using ib(1) ne by (simp add: takeWhile_none)
  have tw2: "length (takeWhile (\<lambda>x. x \<le> b) ?m) \<noteq> length ?m"
    using ib(2) ne by (auto simp: takeWhile_all_length intro!: bexI [of _ "last ?m"])
  have w: "\<exists>fs fe. fragment_window start stop ?m = Window fs fe True \<and>
      (start = Some b \<longrightarrow> fs = Some b) \<and> (stop = Some b \<longrightarrow> fe = Some b) \<and> in_window fs fe b"
  proof (cases start)
    case sn: None
    then have st: "stop = Some b" using assms(4) by simp
    have "min b (last ?m) = b" using ib(2) by simp
    then show ?thesis
      using ib(1) tw2
      by (simp add: fragment_window_def sn st Let_def searchsorted_right_def in_window_def)
  next
    case sa: (Some a)
    show ?thesis
    proof (cases stop)
      case None
      then have ab: "a = b" using assms(4) sa by simp
      have "max b (hd ?m) = b" using ib(1) by simp
      then show ?thesis
        using ib(2) tw1
        by (simp add: fragment_window_def sa None ab Let_def searchsorted_left_def in_window_def)
    next
      case (Some c)
      have ac: "a \<le> c" using assms(5) sa Some by simp
      have bc: "a = b \<or> c = b" using assms(4) sa Some by auto
      have nb: "\<not> c < hd ?m" using ib(1) ac bc by auto
      have nc: "\<not> last ?m < a" using ib(2) ac bc by auto
      show ?thesis
      proof (cases "a = b")
        case True
        have "max b (hd ?m) = b" using ib(1) by simp
        moreover have "b \<le> min c (last ?m)" using ib(2) ac True by simp
        ultimately show ?thesis
          using nb nc tw1 True
          by (auto simp add: fragment_window_def sa Some Let_def searchsorted_left_def in_window_def)
      next
        case False
        then have cb: "c = b" using bc by simp
        have "min b (last ?m) = b" using ib(2) by simp
        moreover have "max a (hd ?m) \<le> b" using ib(1) ac cb by simp
        ultimately show ?thesis
          using nb nc tw2 cb False
          by (auto simp add: fragment_window_def sa Some Let_def searchsorted_right_def in_window_def)
      qed
    qed
  qed
  then obtain fs fe where w: "fragment_window start stop ?m = Window fs fe True"
      "start = Some b \<longrightarrow> fs = Some b" "stop = Some b \<longrightarrow> fe = Some b" "in_window fs fe b"
    by blast
  define m' where "m' = cut_times include_ends fs fe ?m"
  have fsfe: "fs = Some b \<or> fe = Some b" using w(2,3) assms(4) by auto
  have bm: "b \<in> set m'"
  proof (cases "fs = Some b")
    case True
    then show ?thesis using cut_times_lead [OF assms(2,3), of fe] w(4) by (simp add: m'_def)
  next
    case False
    then have "fe = Some b" using fsfe by simp
    then show ?thesis using cut_times_trail [OF assms(2,3), of fs] w(4) by (simp add: m'_def)
  qed
  have sm: "sorted m'" using assms(1) by (simp add: m'_def cut_times_sorted)
  have wm: "\<forall>t \<in> set m'. in_window fs fe t" by (auto simp: m'_def dest: cut_times_in_window)
  have hl: "hd m' \<le> b" "b \<le> last m'"
    using sorted_hd_min [OF sm bm] sorted_last_max [OF sm bm] by simp_all
  have pc: "piece interp start stop include_ends f
      = PEmit m' (map (Signal_cut interp (Some (hd m')) (Some (last m')) include_ends)
                      (first_signals f))"
    using ne w(1) bm by (auto simp: piece_def Let_def m'_def)
  have "b \<in> set (cut_times include_ends (Some (hd m')) (Some (last m')) ?m)"
  proof (cases "fs = Some b")
    case True
    then have "\<forall>t \<in> set m'. b \<le> t" using wm by (simp add: in_window_def)
    then have "hd m' = b" using sm bm by (intro sorted_hd_eq)
    then show ?thesis
      using cut_times_lead [OF assms(2,3), of "Some (last m')"] hl(2) by (simp add: in_window_def)
  next
    case False
    then have "fe = Some b" using fsfe by simp
    then have "\<forall>t \<in> set m'. t \<le> b" using wm by (simp add: in_window_def split: option.splits)
    then have "last m' = b" using sm bm by (intro sorted_last_eq)
    then show ?thesis
      using cut_times_trail [OF assms(2,3), of "Some (hd m')"] hl(1) by (simp add: in_window_def)
  qed
  then have "\<forall>sig \<in> set (map (Signal_cut interp (Some (hd m')) (Some (last m')) include_ends)
                      (first_signals f)). b \<in> set (timestamps sig)"
    by (auto simp: timestamps_Signal_cut first_signals_def)
  then show ?thesis using pc bm by blast
qed

lemma piece_not_break:
  assumes "hd (master f) < b" and "start = Some b \<or> stop = Some b"
    and "\<forall>a c. start = Some a \<and> stop = Some c \<longrightarrow> a \<le> c"
  shows "piece interp start stop include_ends f \<noteq> PBreak"
proof (cases stop)
  case None
  then show ?thesis
    by (auto simp: piece_def fragment_window_def Let_def split: option.splits if_splits)
next
  case (Some c)
  then have "b \<le> c" using assms(2,3) by auto
  then have "\<not> c < hd (master f)" using assms(1) by simp
  then show ?thesis
    by (auto simp: piece_def fragment_window_def Some Let_def split: option.splits if_splits)
qed

lemma emitted_bound:
  assumes "sorted (concat (map master frs))" and "f \<in> set frs"
    and "include_ends" and "inside_interval b (master f)"
    and "start = Some b \<or> stop = Some b"
    and "\<forall>a c. start = Some a \<and> stop = Some c \<longrightarrow> a \<le> c"
  shows "\<exists>e \<in> set (emitted interp start stop include_ends frs).
           b \<in> set (fst e) \<and> (\<forall>sig \<in> set (snd e). b \<in> set (timestamps sig))"
  using assms(1,2)
proof (induction frs)
  case Nil
  then show ?case by simp
next
  case (Cons x frs)
  have sx: "sorted (master x)" and sr: "sorted (concat (map master frs))"
    using Cons.prems(1) by (simp_all add: sorted_append)
  show ?case
  proof (cases "inside_interval b (master x)")
    case True
    obtain m sigs where "piece interp start stop include_ends x = PEmit m sigs" "b \<in> set m"
        "\<forall>sig \<in> set sigs. b \<in> set (timestamps sig)"
      using piece_bound [OF sx assms(3) True assms(5,6), of interp] by blast
    then show ?thesis by (auto simp: emitted_Cons)
  next
    case False
    then have fin: "f \<in> set frs" using Cons.prems(2) assms(4) by auto
    obtain e where e: "e \<in> set (emitted interp start stop include_ends frs)" "b \<in> set (fst e)"
        "\<forall>sig \<in> set (snd e). b \<in> set (timestamps sig)"
      using Cons.IH [OF sr fin] by blast
    have nb: "piece interp start stop include_ends x \<noteq> PBreak"
    proof (cases "master x = []")
      case True
      then show ?thesis by (simp add: piece_def)
    next
      case ne: False
      have sf: "sorted (master f)" using sr fin by (rule sorted_concat_member)
      have fne: "master f \<noteq> []" using assms(4) by auto
      have "hd (master f) \<in> set (concat (map master frs))" using fin fne by (auto intro!: bexI [of _ f])
      moreover have "hd (master x) \<in> set (master x)" using ne by simp
      ultimately have "hd (master x) \<le> hd (master f)"
        using Cons.prems(1) by (auto simp add: sorted_append)
      moreover have "hd (master f) < b" using inside_interval_bounds [OF sf assms(4)] by simp
      ultimately have "hd (master x) < b" by simp
      then show ?thesis using assms(5,6) by (rule piece_not_break)
    qed
    then have "set (emitted interp start stop include_ends frs)
        \<subseteq> set (emitted interp start stop include_ends (x # frs))"
      by (auto simp: emitted_Cons split: piece.splits)
    then show ?thesis using e by blast
  qed
qed

lemma og_master_fold_ext:
  "og_master (fold ext es og) = og_master og @ concat (map fst es)"
  by (induction es arbitrary: og) (simp_all add: ext_def extend_group_def)

lemma og_source_fold_ext: "og_source (fold ext es og) = og_source og"
  by (induction es arbitrary: og) (simp_all add: ext_def extend_group_def)

lemma emitted_piece:
  assumes "e \<in> set (emitted interp start stop include_ends frs)"
  shows "\<exists>f \<in> set frs. piece interp start stop include_ends f = PEmit (fst e) (snd e)"
proof -
  obtain f where f: "f \<in> set (takeWhile (\<lambda>f. piece interp start stop include_ends f \<noteq> PBreak) frs)"
      and e: "e \<in> set (case piece interp start stop include_ends f of
                PEmit m sigs \<Rightarrow> [(m, sigs)] | PBreak \<Rightarrow> [] | PSkip \<Rightarrow> [])"
    using assms by (auto simp: emitted_def)
  have "f \<in> set frs" using f by (rule set_takeWhileD [THEN conjunct1])
  moreover have "piece interp start stop include_ends f = PEmit (fst e) (snd e)"
    using e by (cases "piece interp start stop include_ends f") auto
  ultimately show ?thesis by blast
qed

lemma emitted_in_window:
  assumes "\<forall>f \<in> set frs. sorted (master f)"
    and "e \<in> set (emitted interp start stop include_ends frs)"
  shows "(\<forall>t \<in> set (fst e). in_window start stop t) \<and>
         (\<forall>sig \<in> set (snd e). \<forall>t \<in> set (timestamps sig). in_window start stop t)"
proof -
  obtain f where f: "f \<in> set frs" "piece interp start stop include_ends f = PEmit (fst e) (snd e)"
    using emitted_piece [OF assms(2)] by blast
  have "sorted (master f)" using assms(1) f(1) by blast
  then show ?thesis using f(2) by (rule piece_in_window)
qed

lemma og_master_first_group:
  "t \<in> set (og_master (first_group key sigs)) \<Longrightarrow> \<exists>sig \<in> set sigs. t \<in> set (timestamps sig)"
  by (cases sigs) (auto simp: first_group_def)

lemma build_in_window:
  assumes "\<forall>e \<in> set es. (\<forall>t \<in> set (fst e). in_window start stop t) \<and>
         (\<forall>sig \<in> set (snd e). \<forall>t \<in> set (timestamps sig). in_window start stop t)"
    and "og \<in> set (build key es)" and "t \<in> set (og_master og)"
  shows "in_window start stop t"
proof (cases es)
  case Nil
  then show ?thesis using assms(2) by (simp add: build_def)
next
  case (Cons e rest)
  then have og: "og = fold ext rest (first_group key (snd e))"
    using assms(2) by (simp add: build_def)
  have "t \<in> set (og_master (first_group key (snd e))) \<or> t \<in> set (concat (map fst rest))"
    using assms(3) by (simp add: og og_master_fold_ext)
  then show ?thesis
  proof
    assume "t \<in> set (og_master (first_group key (snd e)))"
    then obtain sig where "sig \<in> set (snd e)" "t \<in> set (timestamps sig)"
      using og_master_first_group by blast
    then show ?thesis using assms(1) Cons by auto
  next
    assume "t \<in> set (concat (map fst rest))"
    then obtain e' where "e' \<in> set rest" "t \<in> set (fst e')" by auto
    then show ?thesis using assms(1) Cons by auto
  qed
qed

lemma group_result_in_window:
  assumes "\<forall>f \<in> set (fragments g). sorted (master f)"
    and "group_result interp start stop include_ends g G"
    and "og \<in> set G" and "t \<in> set (og_master og)"
  shows "in_window start stop t"
proof -
  consider "G = []"
    | "G = build (vg_key g) (emitted interp start stop include_ends (fragments g))"
    | "G = [og]" "og_master og = []"
    using assms(2,3) by (auto simp: group_result_def zero_group_def split: if_splits)
  then show ?thesis
  proof cases
    case 1
    then show ?thesis using assms(3) by simp
  next
    case 2
    show ?thesis
    proof (rule build_in_window)
      show "\<forall>e \<in> set (emitted interp start stop include_ends (fragments g)).
         (\<forall>t \<in> set (fst e). in_window start stop t) \<and>
         (\<forall>sig \<in> set (snd e). \<forall>t \<in> set (timestamps sig). in_window start stop t)"
        using emitted_in_window [OF assms(1)] by blast
      show "og \<in> set (build (vg_key g) (emitted interp start stop include_ends (fragments g)))"
        using assms(3) 2 by simp
      show "t \<in> set (og_master og)" by (rule assms(4))
    qed
  next
    case 3
    then show ?thesis using assms(4) by simp
  qed
qed

lemma concat_all2_member:
  assumes "list_all2 R gs Gs" and "og \<in> set (concat Gs)"
  shows "\<exists>g G. g \<in> set gs \<and> R g G \<and> og \<in> set G"
  using assms by (induction rule: list_all2_induct) auto

lemma all2_concat_member:
  assumes "list_all2 R gs Gs" and "g \<in> set gs"
  shows "\<exists>G. R g G \<and> set G \<subseteq> set (concat Gs)"
  using assms by (induction rule: list_all2_induct) auto

lemma build_bound:
  assumes "e \<in> set es" and "b \<in> set (fst e)" and "\<forall>sig \<in> set (snd e). b \<in> set (timestamps sig)"
    and "\<forall>e \<in> set es. snd e \<noteq> []"
  shows "\<exists>og \<in> set (build key es). og_source og = key \<and> b \<in> set (og_master og)"
proof (cases es)
  case Nil
  then show ?thesis using assms(1) by simp
next
  case (Cons e0 rest)
  define og where "og = fold ext rest (first_group key (snd e0))"
  have b: "build key es = [og]" by (simp add: build_def Cons og_def)
  have src: "og_source og = key" by (simp add: og_def og_source_fold_ext first_group_def)
  have "b \<in> set (og_master og)"
  proof (cases "e = e0")
    case True
    obtain sig sigs where sg: "snd e0 = sig # sigs" using assms(4) Cons by (cases "snd e0") auto
    then have "b \<in> set (timestamps sig)" using assms(3) True by simp
    then show ?thesis by (simp add: og_def og_master_fold_ext first_group_def sg)
  next
    case False
    then have "e \<in> set rest" using assms(1) Cons by simp
    then show ?thesis using assms(2) by (auto simp: og_def og_master_fold_ext)
  qed
  then show ?thesis using b src by simp
qed

lemma emitted_nonempty_signals:
  assumes "shaped_group g" and "channel_names g \<noteq> []"
    and "e \<in> set (emitted interp start stop include_ends (fragments g))"
  shows "snd e \<noteq> []"
proof -
  obtain f where f: "f \<in> set (fragments g)"
      "piece interp start stop include_ends f = PEmit (fst e) (snd e)"
    using emitted_piece [OF assms(3)] by blast
  have "length (columns f) = length (channel_names g)"
    using assms(1) f(1) by (simp add: shaped_group_def list_all_iff)
  moreover have "length (snd e) = length (columns f)"
    using f(2) by (rule piece_emit_length)
  ultimately show ?thesis using assms(2) by auto
qed

text \<open>
  What the loop of \<^verbatim>\<open>cut(start, stop, whence=0, include_ends)\<close> does guarantee on a
  file whose fragments have sorted masters: every time stamp of every output group lies in
  the window \<open>start \<le> t \<le> stop\<close> (a missing bound is unbounded). With
  \<^verbatim>\<open>include_ends\<close>, when \<open>start\<close> or \<open>stop\<close> lies strictly between two consecutive time
  stamps of one fragment of a group with included channels whose time stamps are sorted
  over all fragments, and \<open>start \<le> stop\<close> when both are given, the output group of that
  virtual group holds a time stamp at exactly that bound.
\<close>

theorem cut_bounds:
  assumes "whence \<noteq> 1" and "list_all shaped_group (vgroups self)"
    and "\<forall>g \<in> set (vgroups self). \<forall>f \<in> set (fragments g). sorted (master f)"
    and "fst (cut interp terminate self start stop whence include_ends False) = Inr (Some out)"
  shows "(\<forall>og \<in> set out. \<forall>t \<in> set (og_master og). in_window start stop t) \<and>
    (\<forall>g f b. include_ends \<and> g \<in> set (vgroups self) \<and> channel_names g \<noteq> [] \<and>
        sorted (concat (map master (fragments g))) \<and> f \<in> set (fragments g) \<and>
        inside_interval b (master f) \<and> (start = Some b \<or> stop = Some b) \<and>
        (\<forall>a c. start = Some a \<and> stop = Some c \<longrightarrow> a \<le> c) \<longrightarrow>
        (\<exists>og \<in> set out. og_source og = vg_key g \<and> b \<in> set (og_master og)))"
proof -
  obtain Gs where Gs: "list_all2 (group_result interp start stop include_ends) (vgroups self) Gs"
      and out: "out = concat Gs"
    using cut_result [OF assms(1,2,4)] by blast
  have p1: "in_window start stop t" if k: "og \<in> set out" "t \<in> set (og_master og)" for og t
  proof -
    obtain g G where g: "g \<in> set (vgroups self)" "group_result interp start stop include_ends g G"
        "og \<in> set G"
      using concat_all2_member [OF Gs] k(1) out by blast
    have "\<forall>f \<in> set (fragments g). sorted (master f)" using assms(3) g(1) by blast
    then show ?thesis using g(2,3) k(2) by (rule group_result_in_window)
  qed
  have p2: "\<exists>og \<in> set out. og_source og = vg_key g \<and> b \<in> set (og_master og)"
    if h: "include_ends" "g \<in> set (vgroups self)" "channel_names g \<noteq> []"
      "sorted (concat (map master (fragments g)))" "f \<in> set (fragments g)"
      "inside_interval b (master f)" "start = Some b \<or> stop = Some b"
      "\<forall>a c. start = Some a \<and> stop = Some c \<longrightarrow> a \<le> c" for g f b
  proof -
    obtain G where G: "group_result interp start stop include_ends g G" "set G \<subseteq> set out"
      using all2_concat_member [OF Gs h(2)] out by blast
    have sh: "shaped_group g" using assms(2) h(2) by (simp add: list_all_iff)
    obtain e where e: "e \<in> set (emitted interp start stop include_ends (fragments g))"
        "b \<in> set (fst e)" "\<forall>sig \<in> set (snd e). b \<in> set (timestamps sig)"
      using emitted_bound [OF h(4,5,1,6,7,8), of interp] by blast
    have "emitted interp start stop include_ends (fragments g) \<noteq> []" using e(1) by auto
    then have "G = build (vg_key g) (emitted interp start stop include_ends (fragments g))"
      using G(1) h(3) by (simp add: group_result_def)
    moreover have "\<exists>og \<in> set (build (vg_key g) (emitted interp start stop include_ends (fragments g))).
        og_source og = vg_key g \<and> b \<in> set (og_master og)"
      using e
    proof (rule build_bound)
      show "\<forall>e \<in> set (emitted interp start stop include_ends (fragments g)). snd e \<noteq> []"
        using emitted_nonempty_signals [OF sh h(3)] by blast
    qed
    ultimately show ?thesis using G(2) by blast
  qed
  show ?thesis using p1 p2 by blast
qed

theorem cut_bounds_witness:
  "(\<exists>og. fst (cut (\<lambda>sig t. (0, False)) (\<lambda>k. False)
          \<lparr>vgroups = [\<lparr>vg_key = 0, channel_names = [''S''],
                       fragments = [\<lparr>master = [0, 1], columns = [([10, 11 :: int], None)]\<rparr>,
                                    \<lparr>master = [2, 3], columns = [([12, 13], None)]\<rparr>]\<rparr>],
           start_time = 0, copy_on_get = True\<rparr> (Some (1 / 2)) (Some (5 / 2)) 0 True False)
       = Inr (Some [og]) \<and>
     list_all (in_window (Some (1 / 2)) (Some (5 / 2))) (og_master og) \<and>
     1 / 2 \<in> set (og_master og) \<and> 5 / 2 \<in> set (og_master og))"
proof -
  let ?f1 = "\<lparr>master = [0, 1], columns = [([10, 11 :: int], None)]\<rparr>"
  let ?f2 = "\<lparr>master = [2, 3], columns = [([12, 13 :: int], None)]\<rparr>"
  let ?g = "\<lparr>vg_key = 0, channel_names = [''S''], fragments = [?f1, ?f2]\<rparr>"
  let ?M = "\<lparr>vgroups = [?g], start_time = 0, copy_on_get = True\<rparr>"
  let ?og = "\<lparr>og_source = 0, og_master = [1 / 2, 1, 2, 5 / 2],
              og_columns = [([0, 11, 12, 0 :: int], None)]\<rparr>"
  have c: "fst (cut (\<lambda>sig t. (0, False)) (\<lambda>k. False) ?M (Some (1 / 2)) (Some (5 / 2)) 0 True False)
      = Inr (Some [?og])"
    by (simp add: cut_def cut_group_def cut_fragment_def fragment_window_def emit_def
        first_signals_def append_group_def Let_def Signal_cut_def boundary_def in_window_def
        searchsorted_left_def searchsorted_right_def update_signals_def mdf_extend_def
        extend_group_def extend_bits_def signal_columns_def pick_def)
  have h1: "(0 :: int) \<noteq> 1" by simp
  have h2: "list_all shaped_group (vgroups ?M)" by (simp add: shaped_group_def)
  have h3: "\<forall>g \<in> set (vgroups ?M). \<forall>f \<in> set (fragments g). sorted (master f)" by simp
  note cb = cut_bounds [OF h1 h2 h3 c]
  have w: "\<forall>t \<in> set (og_master ?og). in_window (Some (1 / 2)) (Some (5 / 2)) t"
    using cb by simp
  have s1: "\<exists>og \<in> set [?og]. og_source og = vg_key ?g \<and> 1 / 2 \<in> set (og_master og)"
    using cb [THEN conjunct2, rule_format, of ?g ?f1 "1 / 2"] by simp
  have s2: "\<exists>og \<in> set [?og]. og_source og = vg_key ?g \<and> 5 / 2 \<in> set (og_master og)"
    using cb [THEN conjunct2, rule_format, of ?g ?f2 "5 / 2"] by simp
  show ?thesis using c w s1 s2 by (auto simp: list_all_iff)
qed

text \<open>
  C1 fails in the code for a bound that lies between the last time stamp of one fragment
  and the first of the next. The samples at \<open>0, 1, 2, 3\<close> read as the fragments \<open>0, 1\<close> and
  \<open>2, 3\<close> and cut with \<^verbatim>\<open>start = 1.5\<close> and \<^verbatim>\<open>include_ends\<close>: \<open>3/2\<close> lies strictly inside
  the sampling interval from \<open>1\<close> to \<open>2\<close>, the first fragment is skipped, the second needs no
  cutting, and no sample is written at \<open>3/2\<close>. The same samples read as one fragment do get
  the sample at \<open>3/2\<close>.
\<close>

theorem cut_misses_bound_between_fragments:
  "fst (cut (\<lambda>sig t. (0, False)) (\<lambda>k. False)
          \<lparr>vgroups = [\<lparr>vg_key = 0, channel_names = [''S''],
                       fragments = [\<lparr>master = [0, 1], columns = [([10, 11 :: int], None)]\<rparr>,
                                    \<lparr>master = [2, 3], columns = [([12, 13], None)]\<rparr>]\<rparr>],
           start_time = 0, copy_on_get = True\<rparr> (Some (3 / 2)) None 0 True False)
   = Inr (Some [\<lparr>og_source = 0, og_master = [2, 3], og_columns = [([12, 13], None)]\<rparr>]) \<and>
   inside_interval (3 / 2) [0, 1, 2, 3] \<and>
   fst (cut (\<lambda>sig t. (0, False)) (\<lambda>k. False)
          \<lparr>vgroups = [\<lparr>vg_key = 0, channel_names = [''S''],
                       fragments = [\<lparr>master = [0, 1, 2, 3],
                                     columns = [([10, 11, 12, 13 :: int], None)]\<rparr>]\<rparr>],
           start_time = 0, copy_on_get = True\<rparr> (Some (3 / 2)) None 0 True False)
   = Inr (Some [\<lparr>og_source = 0, og_master = [3 / 2, 2, 3],
                 og_columns = [([0, 12, 13], None)]\<rparr>])"
  by (simp add: cut_def cut_group_def cut_fragment_def fragment_window_def emit_def
      first_signals_def append_group_def Let_def Signal_cut_def boundary_def in_window_def
      searchsorted_left_def searchsorted_right_def update_signals_def mdf_extend_def
      extend_group_def extend_bits_def signal_columns_def pick_def)

subsection \<open>\<^verbatim>\<open>MDF.cut\<close>: a window without samples\<close>

lemma member_nonempty: "x \<in> set xs \<Longrightarrow> xs \<noteq> []"
  by auto

lemma window_bounds:
  assumes "fragment_window start stop m = Window fs fe nc"
  shows "(fs = None \<and> start = None \<or> (\<exists>a. start = Some a \<and> fs = Some (max a (hd m)))) \<and>
         (fe = None \<and> stop = None \<or> (\<exists>c. stop = Some c \<and> fe = Some (min c (last m))))"
proof (cases start)
  case sn: None
  show ?thesis
  proof (cases stop)
    case None
    then show ?thesis using assms sn by (simp add: fragment_window_def)
  next
    case (Some c)
    then show ?thesis using assms sn by (auto simp: fragment_window_def Let_def split: if_splits)
  qed
next
  case sa: (Some a)
  show ?thesis
  proof (cases stop)
    case None
    then show ?thesis using assms sa by (auto simp: fragment_window_def Let_def split: if_splits)
  next
    case (Some c)
    then show ?thesis using assms sa by (auto simp: fragment_window_def Let_def split: if_splits)
  qed
qed

lemma piece_nothing:
  assumes "sorted (master f)" and "\<forall>t \<in> set (master f). \<not> in_window start stop t"
    and "include_ends \<longrightarrow>
         (\<forall>b. (start = Some b \<or> stop = Some b) \<longrightarrow> \<not> inside_interval b (master f))"
  shows "piece interp start stop include_ends f \<noteq> PEmit m sigs"
proof
  assume pe: "piece interp start stop include_ends f = PEmit m sigs"
  have ne: "master f \<noteq> []" using pe by (auto simp: piece_def)
  obtain fs fe nc where w: "fragment_window start stop (master f) = Window fs fe nc"
    using pe ne by (cases "fragment_window start stop (master f)") (auto simp: piece_def)
  note ws = window_sound [OF ne assms(1) w]
  note wb = window_bounds [OF w]
  show False
  proof (cases nc)
    case False
    then have "in_window start stop (hd (master f))" using ws ne by simp
    then show False using assms(2) ne by auto
  next
    case True
    define m' where "m' = cut_times include_ends fs fe (master f)"
    have "m' \<noteq> []" using pe ne w True by (auto simp: piece_def Let_def m'_def split: if_splits)
    then obtain t where t: "t \<in> set m'" by (cases m') auto
    have "t \<notin> set (master f)"
      using t ws assms(2) cut_times_in_window by (auto simp: m'_def)
    then have "t \<in> set (boundary include_ends fs fe (master f) fs) \<or>
        t \<in> set (boundary include_ends fs fe (master f) fe)"
      using t by (auto simp: m'_def cut_times_def split: if_splits)
    then have b: "include_ends" "inside_interval t (master f)" "fs = Some t \<or> fe = Some t"
      using boundary_cases [of include_ends fs fe "master f" fs]
        boundary_cases [of include_ends fs fe "master f" fe] by auto
    have ib: "hd (master f) < t" "t < last (master f)"
      using inside_interval_bounds [OF assms(1) b(2)] by simp_all
    have "start = Some t \<or> stop = Some t"
      using b(3) wb ib by (auto simp: max_def min_def split: if_splits)
    then show False using assms(3) b(1,2) by blast
  qed
qed

lemma emitted_nothing:
  assumes "\<forall>f \<in> set frs. sorted (master f) \<and> (\<forall>t \<in> set (master f). \<not> in_window start stop t) \<and>
      (include_ends \<longrightarrow>
         (\<forall>b. (start = Some b \<or> stop = Some b) \<longrightarrow> \<not> inside_interval b (master f)))"
  shows "emitted interp start stop include_ends frs = []"
proof (rule ccontr)
  assume "emitted interp start stop include_ends frs \<noteq> []"
  then obtain e where "e \<in> set (emitted interp start stop include_ends frs)"
    by (cases "emitted interp start stop include_ends frs") auto
  then obtain f where f: "f \<in> set frs" "piece interp start stop include_ends f = PEmit (fst e) (snd e)"
    using emitted_piece by blast
  have "piece interp start stop include_ends f \<noteq> PEmit (fst e) (snd e)"
    using assms f(1) by (intro piece_nothing) blast+
  then show False using f(2) by simp
qed

text \<open>
  C5, amended. For a call \<^verbatim>\<open>cut(start, stop)\<close> that is not aborted, and a channel group
  with included channels and at least one fragment: when no time stamp of the group lies in
  the window and, with \<^verbatim>\<open>include_ends\<close>, neither bound lies strictly inside a sampling
  interval of a fragment, the call raises nothing and the returned file holds a group for
  that channel group with zero cycles.
\<close>

theorem cut_empty_range:
  assumes "whence \<noteq> 1" and "list_all shaped_group (vgroups self)" and "\<forall>k. \<not> terminate k"
    and "g \<in> set (vgroups self)" and "channel_names g \<noteq> []" and "fragments g \<noteq> []"
    and "\<forall>f \<in> set (fragments g). sorted (master f) \<and>
      (\<forall>t \<in> set (master f). \<not> in_window start stop t) \<and>
      (include_ends \<longrightarrow>
         (\<forall>b. (start = Some b \<or> stop = Some b) \<longrightarrow> \<not> inside_interval b (master f)))"
  shows "\<exists>out og. fst (cut interp terminate self start stop whence include_ends False)
             = Inr (Some out) \<and>
           og \<in> set out \<and> zero_group (vg_key g) (length (channel_names g)) og"
proof -
  obtain Gs where Gs: "list_all2 (group_result interp start stop include_ends) (vgroups self) Gs"
      and r: "fst (cut interp terminate self start stop whence include_ends False)
             = (if concat Gs = [] then Inl UnboundLocalError else Inr (Some (concat Gs)))"
    using cut_success [OF assms(1,2,3)] by blast
  obtain G where G: "group_result interp start stop include_ends g G" "set G \<subseteq> set (concat Gs)"
    using all2_concat_member [OF Gs assms(4)] by blast
  have "emitted interp start stop include_ends (fragments g) = []"
    using assms(7) by (rule emitted_nothing)
  then obtain og where og: "G = [og]" "zero_group (vg_key g) (length (channel_names g)) og"
    using G(1) assms(5,6) by (auto simp: group_result_def)
  have mem: "og \<in> set (concat Gs)" using G(2) og(1) by simp
  then have "concat Gs \<noteq> []" by (rule member_nonempty)
  then have "fst (cut interp terminate self start stop whence include_ends False)
      = Inr (Some (concat Gs))"
    using r by simp
  then show ?thesis using mem og(2) by blast
qed

theorem cut_empty_range_witness:
  "\<exists>og. fst (cut (\<lambda>sig t. (0, False)) (\<lambda>k. False)
          \<lparr>vgroups = [\<lparr>vg_key = 0, channel_names = [''S''],
                       fragments = [\<lparr>master = [0, 1], columns = [([10, 11 :: int], Some [False, True])]\<rparr>,
                                    \<lparr>master = [2, 3], columns = [([12, 13], None)]\<rparr>]\<rparr>],
           start_time = 0, copy_on_get = True\<rparr> (Some 10) (Some 20) 0 True False)
       = Inr (Some [og]) \<and> zero_group 0 1 og"
proof -
  let ?f1 = "\<lparr>master = [0, 1], columns = [([10, 11 :: int], Some [False, True])]\<rparr>"
  let ?f2 = "\<lparr>master = [2, 3], columns = [([12, 13 :: int], None)]\<rparr>"
  let ?g = "\<lparr>vg_key = 0, channel_names = [''S''], fragments = [?f1, ?f2]\<rparr>"
  let ?M = "\<lparr>vgroups = [?g], start_time = 0, copy_on_get = True\<rparr>"
  let ?og = "\<lparr>og_source = 0, og_master = [], og_columns = [([] :: int list, Some [])]\<rparr>"
  have c: "fst (cut (\<lambda>sig t. (0, False)) (\<lambda>k. False) ?M (Some 10) (Some 20) 0 True False)
      = Inr (Some [?og])"
    by (simp add: cut_def cut_group_def cut_fragment_def fragment_window_def emit_def
        first_signals_def append_group_def Let_def zero_cycles_def)
  have h1: "(0 :: int) \<noteq> 1" by simp
  have h2: "list_all shaped_group (vgroups ?M)" by (simp add: shaped_group_def)
  have h3: "\<forall>k. \<not> (\<lambda>k. False) k" by simp
  have h4: "?g \<in> set (vgroups ?M)" by simp
  have h5: "channel_names ?g \<noteq> []" by simp
  have h6: "fragments ?g \<noteq> []" by simp
  have h7: "\<forall>f \<in> set (fragments ?g). sorted (master f) \<and>
      (\<forall>t \<in> set (master f). \<not> in_window (Some 10) (Some 20) t) \<and>
      (True \<longrightarrow>
         (\<forall>b. (Some 10 = Some b \<or> Some 20 = Some b) \<longrightarrow> \<not> inside_interval b (master f)))"
    by (auto simp: in_window_def)
  obtain out og where o: "fst (cut (\<lambda>sig t. (0, False)) (\<lambda>k. False) ?M (Some 10) (Some 20) 0 True False)
      = Inr (Some out)" "og \<in> set out" "zero_group (vg_key ?g) (length (channel_names ?g)) og"
    using cut_empty_range [OF h1 h2 h3 h4 h5 h6 h7] by blast
  have "out = [?og]" using o(1) c by simp
  then have "og = ?og" using o(2) by simp
  then have "zero_group 0 1 ?og" using o(3) by simp
  then show ?thesis using c by blast
qed

text \<open>
  C5 as stated fails in two ways. With \<^verbatim>\<open>include_ends\<close> (the default) and a window that
  lies strictly inside one sampling interval, the window holds no sample of the group, yet
  the output group has the two synthesized samples. And a channel group without included
  channels gets no output group at all.
\<close>

theorem cut_empty_range_counterexample:
  "fst (cut (\<lambda>sig t. (0, False)) (\<lambda>k. False)
          \<lparr>vgroups = [\<lparr>vg_key = 0, channel_names = [''S''],
                       fragments = [\<lparr>master = [0, 1, 2, 3],
                                     columns = [([10, 11, 12, 13 :: int], None)]\<rparr>]\<rparr>],
           start_time = 0, copy_on_get = True\<rparr> (Some (6 / 5)) (Some (9 / 5)) 0 True False)
   = Inr (Some [\<lparr>og_source = 0, og_master = [6 / 5, 9 / 5], og_columns = [([0, 0], None)]\<rparr>]) \<and>
   filter (in_window (Some (6 / 5)) (Some (9 / 5))) [0, 1, 2, 3] = [] \<and>
   fst (cut (\<lambda>sig t. (0, False)) (\<lambda>k. False)
          \<lparr>vgroups = [\<lparr>vg_key = 0, channel_names = [''S''],
                       fragments = [\<lparr>master = [0, 1], columns = [([10, 11 :: int], None)]\<rparr>]\<rparr>,
                      \<lparr>vg_key = 1, channel_names = [],
                       fragments = [\<lparr>master = [0, 1], columns = []\<rparr>]\<rparr>],
           start_time = 0, copy_on_get = True\<rparr> (Some 10) (Some 20) 0 True False)
   = Inr (Some [\<lparr>og_source = 0, og_master = [], og_columns = [([], None)]\<rparr>])"
  by (simp add: cut_def cut_group_def cut_fragment_def fragment_window_def emit_def
      first_signals_def append_group_def Let_def Signal_cut_def boundary_def in_window_def
      searchsorted_left_def searchsorted_right_def update_signals_def mdf_extend_def
      extend_group_def extend_bits_def signal_columns_def pick_def zero_cycles_def)

subsection \<open>\<^verbatim>\<open>MDF.cut\<close>: cutting twice\<close>

lemma timestamps_first_signals:
  "sig \<in> set (first_signals f) \<Longrightarrow> timestamps sig = master f"
  by (auto simp: first_signals_def)

lemma piece_hull:
  assumes "sorted (master f)" and "piece interp start stop include_ends f = PEmit m sigs"
  shows "master f \<noteq> [] \<and> sorted m \<and>
         (\<forall>t \<in> set m. hd (master f) \<le> t \<and> t \<le> last (master f)) \<and>
         (\<forall>sig \<in> set sigs. sorted (timestamps sig) \<and>
            (\<forall>t \<in> set (timestamps sig). hd (master f) \<le> t \<and> t \<le> last (master f)))"
proof -
  have ne: "master f \<noteq> []" using assms(2) by (auto simp: piece_def)
  obtain fs fe nc where w: "fragment_window start stop (master f) = Window fs fe nc"
    using assms(2) ne by (cases "fragment_window start stop (master f)") (auto simp: piece_def)
  have hull: "\<forall>t \<in> set (master f). hd (master f) \<le> t \<and> t \<le> last (master f)"
    using sorted_hd_min [OF assms(1)] sorted_last_max [OF assms(1)] by blast
  show ?thesis
  proof (cases nc)
    case False
    then have "m = master f" "sigs = first_signals f"
      using assms(2) ne w by (simp_all add: piece_def)
    then show ?thesis using ne assms(1) hull by (auto simp: timestamps_first_signals)
  next
    case True
    define m' where "m' = cut_times include_ends fs fe (master f)"
    have m: "m = m'"
      "sigs = map (Signal_cut interp (Some (hd m')) (Some (last m')) include_ends) (first_signals f)"
      using assms(2) ne w True by (auto simp: piece_def Let_def m'_def split: if_splits)
    have 1: "sorted m" using assms(1) by (simp add: m(1) m'_def cut_times_sorted)
    have 2: "\<forall>t \<in> set m. hd (master f) \<le> t \<and> t \<le> last (master f)"
      using cut_times_hull [OF assms(1)] by (auto simp: m(1) m'_def)
    have 3: "sorted (timestamps sig) \<and>
        (\<forall>t \<in> set (timestamps sig). hd (master f) \<le> t \<and> t \<le> last (master f))"
      if k: "sig \<in> set sigs" for sig
    proof -
      obtain sig0 where s0: "sig0 \<in> set (first_signals f)"
          "sig = Signal_cut interp (Some (hd m')) (Some (last m')) include_ends sig0"
        using k m(2) by auto
      have ts: "timestamps sig = cut_times include_ends (Some (hd m')) (Some (last m')) (master f)"
        using s0 by (simp add: timestamps_Signal_cut timestamps_first_signals)
      show ?thesis
        using cut_times_sorted [OF assms(1)] cut_times_hull [OF assms(1)] by (auto simp: ts)
    qed
    show ?thesis using ne 1 2 3 by blast
  qed
qed

text \<open>The time stamps of an output group built from pieces, the first taken from its signals.\<close>

lemma og_master_build:
  "og \<in> set (build key es) \<Longrightarrow>
   \<exists>e rest. es = e # rest \<and> og_source og = key \<and>
     og_master og = (case snd e of [] \<Rightarrow> [] | sig # _ \<Rightarrow> timestamps sig) @ concat (map fst rest)"
  by (cases es) (auto simp: build_def og_master_fold_ext og_source_fold_ext first_group_def)

lemma sorted_concat_cross:
  assumes "sorted (concat (map master (x # frs)))" and "f \<in> set frs" and "master f \<noteq> []"
    and "master x \<noteq> []"
  shows "last (master x) \<le> hd (master f)"
proof -
  have "hd (master f) \<in> set (concat (map master frs))"
    using assms(2,3) by (auto intro!: bexI [of _ f])
  moreover have "last (master x) \<in> set (master x)" using assms(4) by simp
  ultimately show ?thesis using assms(1) by (auto simp add: sorted_append)
qed

lemma emitted_hull:
  assumes "\<forall>f \<in> set frs. sorted (master f)"
    and "e \<in> set (emitted interp start stop include_ends frs)" and "t \<in> set (fst e)"
  shows "\<exists>f \<in> set frs. master f \<noteq> [] \<and> hd (master f) \<le> t"
proof -
  obtain f where f: "f \<in> set frs" "piece interp start stop include_ends f = PEmit (fst e) (snd e)"
    using emitted_piece [OF assms(2)] by blast
  have "sorted (master f)" using assms(1) f(1) by blast
  then show ?thesis using piece_hull [OF _ f(2)] assms(3) f(1) by blast
qed

lemma emitted_sorted:
  assumes "sorted (concat (map master frs))"
  shows "sorted (concat (map fst (emitted interp start stop include_ends frs))) \<and>
         (\<forall>e rest. emitted interp start stop include_ends frs = e # rest \<longrightarrow>
            (\<forall>sig \<in> set (snd e). sorted (timestamps sig @ concat (map fst rest))))"
  using assms
proof (induction frs)
  case Nil
  then show ?case by simp
next
  case (Cons x frs)
  have sx: "sorted (master x)" and sr: "sorted (concat (map master frs))"
    using Cons.prems by (simp_all add: sorted_append)
  have sf: "\<forall>f \<in> set frs. sorted (master f)" using sr sorted_concat_member by blast
  note IH = Cons.IH [OF sr]
  show ?case
  proof (cases "piece interp start stop include_ends x")
    case PBreak
    then show ?thesis by (simp add: emitted_Cons)
  next
    case PSkip
    then show ?thesis using IH by (simp add: emitted_Cons)
  next
    case (PEmit m sigs)
    note ph = piece_hull [OF sx PEmit]
    have cross: "a \<le> t"
      if k: "a \<le> last (master x)" "t \<in> set (concat (map fst (emitted interp start stop include_ends frs)))"
      for a t
    proof -
      obtain e where e: "e \<in> set (emitted interp start stop include_ends frs)" "t \<in> set (fst e)"
        using k(2) by auto
      obtain f where f: "f \<in> set frs" "master f \<noteq> []" "hd (master f) \<le> t"
        using emitted_hull [OF sf e] by blast
      have "last (master x) \<le> hd (master f)"
        using Cons.prems f(1,2) ph by (intro sorted_concat_cross) auto
      then show ?thesis using k(1) f(3) by simp
    qed
    have 1: "sorted (m @ concat (map fst (emitted interp start stop include_ends frs)))"
      using ph IH cross by (auto simp: sorted_append)
    have 2: "sorted (timestamps sig @ concat (map fst (emitted interp start stop include_ends frs)))"
      if "sig \<in> set sigs" for sig
      using that ph IH cross by (auto simp: sorted_append)
    show ?thesis using 1 2 by (simp add: emitted_Cons PEmit)
  qed
qed

lemma group_result_sorted:
  assumes "sorted (concat (map master (fragments g)))"
    and "group_result interp start stop include_ends g G" and "og \<in> set G"
  shows "sorted (og_master og)"
proof -
  let ?es = "emitted interp start stop include_ends (fragments g)"
  consider "G = []" | "G = build (vg_key g) ?es" | "G = [og]" "og_master og = []"
    using assms(2,3) by (auto simp: group_result_def zero_group_def split: if_splits)
  then show ?thesis
  proof cases
    case 1
    then show ?thesis using assms(3) by simp
  next
    case 2
    then obtain e rest where e: "?es = e # rest"
        "og_master og = (case snd e of [] \<Rightarrow> [] | sig # _ \<Rightarrow> timestamps sig) @ concat (map fst rest)"
      using og_master_build assms(3) by blast
    note es = emitted_sorted [OF assms(1), of interp start stop include_ends]
    show ?thesis
    proof (cases "snd e")
      case Nil
      have "sorted (concat (map fst rest))" using es e(1) by (simp add: sorted_append)
      then show ?thesis by (simp add: e(2) Nil)
    next
      case (Cons sig sigs)
      then have "sig \<in> set (snd e)" by simp
      then have "sorted (timestamps sig @ concat (map fst rest))" using es e(1) by blast
      then show ?thesis by (simp add: e(2) Cons)
    qed
  next
    case 3
    then show ?thesis by simp
  qed
qed

lemma length_columns_fold_ext:
  assumes "\<forall>e \<in> set es. length (snd e) = n" and "length (og_columns og) = n"
  shows "length (og_columns (fold ext es og)) = n"
  using assms
  by (induction es arbitrary: og) (simp_all add: ext_def extend_group_def signal_columns_def)

lemma emitted_length:
  assumes "shaped_group g" and "e \<in> set (emitted interp start stop include_ends (fragments g))"
  shows "length (snd e) = length (channel_names g)"
proof -
  obtain f where f: "f \<in> set (fragments g)"
      "piece interp start stop include_ends f = PEmit (fst e) (snd e)"
    using emitted_piece [OF assms(2)] by blast
  have "length (columns f) = length (channel_names g)"
    using assms(1) f(1) by (simp add: shaped_group_def list_all_iff)
  then show ?thesis using piece_emit_length [OF f(2)] by simp
qed

lemma group_result_columns:
  assumes "shaped_group g" and "group_result interp start stop include_ends g G" and "og \<in> set G"
  shows "length (og_columns og) = length (channel_names g) \<and> channel_names g \<noteq> []"
proof -
  let ?es = "emitted interp start stop include_ends (fragments g)"
  have cn: "channel_names g \<noteq> []" using assms(2,3) by (auto simp: group_result_def)
  consider "G = build (vg_key g) ?es" | "zero_group (vg_key g) (length (channel_names g)) og"
    using assms(2,3) by (auto simp: group_result_def split: if_splits)
  then show ?thesis
  proof cases
    case 1
    then obtain e rest where e: "?es = e # rest" "og = fold ext rest (first_group (vg_key g) (snd e))"
      using assms(3) by (cases ?es) (auto simp: build_def)
    have all: "\<forall>e \<in> set ?es. length (snd e) = length (channel_names g)"
      using emitted_length [OF assms(1)] by blast
    have "length (og_columns og) = length (channel_names g)"
      unfolding e(2)
    proof (rule length_columns_fold_ext)
      show "\<forall>e \<in> set rest. length (snd e) = length (channel_names g)" using all e(1) by simp
      show "length (og_columns (first_group (vg_key g) (snd e))) = length (channel_names g)"
        using all e(1) by (simp add: first_group_def signal_columns_def)
    qed
    then show ?thesis using cn by simp
  next
    case 2
    then show ?thesis using cn by (simp add: zero_group_def)
  qed
qed

lemma cut_result_nonempty:
  assumes "whence \<noteq> 1" and "list_all shaped_group (vgroups self)"
    and "fst (cut interp terminate self start stop whence include_ends False) = Inr (Some out)"
  shows "out \<noteq> []"
proof -
  define s0 :: "'a cut_state" where
    "s0 = \<lparr>cs_idx = 0, cs_signals = [], cs_cg_nr = 0, cs_out = [], cs_named = False\<rparr>"
  have d: "(case start of None \<Rightarrow> 0 | Some d \<Rightarrow> if False then d else (0::rat)) = 0"
    by (simp split: option.splits)
  obtain s' where s': "cut_groups interp start stop include_ends False 0 terminate 0 (vgroups self) s0
      = Some s'"
      and out: "out = cs_out s'" "cs_named s'"
    using assms(1,3) by (auto simp: cut_def Let_def s0_def d split: option.splits if_splits)
  obtain Gs where "cs_out s' = cs_out s0 @ concat Gs" "cs_named s' = (cs_named s0 \<or> concat Gs \<noteq> [])"
    using cut_groups_result [OF assms(2) s'] by blast
  then show ?thesis using out by (simp add: s0_def)
qed

lemma piece_keep:
  assumes "sorted (master f)" and "\<forall>t \<in> set (master f). in_window start stop t"
  shows "piece interp start stop include_ends f
           = (if master f = [] then PSkip else PEmit (master f) (first_signals f))"
proof (cases "master f = []")
  case True
  then show ?thesis by (simp add: piece_def)
next
  case ne: False
  let ?m = "master f"
  have hw: "in_window start stop (hd ?m)" and lw: "in_window start stop (last ?m)"
    using assms(2) ne by simp_all
  have lo: "takeWhile (\<lambda>x. x < hd ?m) ?m = []" using ne by (simp add: takeWhile_none)
  have "\<forall>x \<in> set ?m. x \<le> last ?m" using sorted_last_max [OF assms(1)] by blast
  then have hi: "length (takeWhile (\<lambda>x. x \<le> last ?m) ?m) = length ?m"
    by (simp add: takeWhile_all_length)
  have "\<exists>fs fe. fragment_window start stop ?m = Window fs fe False"
  proof (cases start)
    case sn: None
    show ?thesis
    proof (cases stop)
      case None
      then show ?thesis by (simp add: fragment_window_def sn)
    next
      case (Some c)
      have "hd ?m \<le> c" "min c (last ?m) = last ?m"
        using hw lw by (simp_all add: in_window_def Some)
      then show ?thesis using hi
        by (simp add: fragment_window_def sn Some Let_def searchsorted_right_def)
    qed
  next
    case sa: (Some a)
    show ?thesis
    proof (cases stop)
      case None
      have "a \<le> last ?m" "max a (hd ?m) = hd ?m"
        using hw lw by (simp_all add: in_window_def sa)
      then show ?thesis using lo
        by (simp add: fragment_window_def sa None Let_def searchsorted_left_def)
    next
      case (Some c)
      have "a \<le> last ?m" "max a (hd ?m) = hd ?m" "hd ?m \<le> c" "min c (last ?m) = last ?m"
        using hw lw by (simp_all add: in_window_def sa Some)
      then show ?thesis using lo hi
        by (simp add: fragment_window_def sa Some Let_def searchsorted_left_def
            searchsorted_right_def)
    qed
  qed
  then show ?thesis using ne by (auto simp: piece_def)
qed

lemma emitted_keep:
  assumes "\<forall>f \<in> set frs. sorted (master f) \<and> (\<forall>t \<in> set (master f). in_window start stop t)"
  shows "emitted interp start stop include_ends frs
           = map (\<lambda>f. (master f, first_signals f)) (filter (\<lambda>f. master f \<noteq> []) frs)"
  using assms
proof (induction frs)
  case Nil
  then show ?case by simp
next
  case (Cons x frs)
  have "piece interp start stop include_ends x
           = (if master x = [] then PSkip else PEmit (master x) (first_signals x))"
    using Cons.prems by (intro piece_keep) simp_all
  then show ?case using Cons by (simp add: emitted_Cons)
qed

lemma signal_columns_first_signals: "signal_columns (first_signals f) = columns f"
  by (simp add: signal_columns_def first_signals_def comp_def case_prod_beta)

lemma fold_ext_keep:
  assumes "\<forall>f \<in> set fs. length (columns f) = n" and "length (og_columns og) = n"
  shows "length (og_columns (fold ext (map (\<lambda>f. (master f, first_signals f)) fs) og)) = n \<and>
         (\<forall>i < n. fst (og_columns (fold ext (map (\<lambda>f. (master f, first_signals f)) fs) og) ! i)
            = fst (og_columns og ! i) @ concat (map (\<lambda>f. fst (columns f ! i)) fs))"
  using assms
proof (induction fs arbitrary: og)
  case Nil
  then show ?case by simp
next
  case (Cons x fs)
  define og' where "og' = ext (master x, first_signals x) og"
  have cols: "og_columns og' = map (\<lambda>((s, b), (s', b')). (s @ s', extend_bits (length s) b (length s') b'))
                         (zip (og_columns og) (columns x))"
    by (simp add: og'_def ext_def extend_group_def signal_columns_first_signals)
  have lx: "length (columns x) = n" using Cons.prems(1) by simp
  have len: "length (og_columns og') = n" using lx Cons.prems(2) by (simp add: cols)
  have nth: "fst (og_columns og' ! i) = fst (og_columns og ! i) @ fst (columns x ! i)" if "i < n" for i
    using that lx Cons.prems(2) by (simp add: cols case_prod_beta)
  have "\<forall>f \<in> set fs. length (columns f) = n" using Cons.prems(1) by simp
  note IH = Cons.IH [OF this len]
  show ?case using IH nth by (simp add: og'_def)
qed

lemma concat_filter_masters:
  "concat (map master (filter (\<lambda>f. master f \<noteq> []) frs)) = concat (map master frs)"
  by (induction frs) simp_all

lemma concat_filter_columns:
  assumes "\<forall>f \<in> set frs. list_all (\<lambda>c. length (fst c) = length (master f)) (columns f) \<and>
      i < length (columns f)"
  shows "concat (map (\<lambda>f. fst (columns f ! i)) (filter (\<lambda>f. master f \<noteq> []) frs))
           = concat (map (\<lambda>f. fst (columns f ! i)) frs)"
  using assms
proof (induction frs)
  case Nil
  then show ?case by simp
next
  case (Cons x frs)
  have "length (fst (columns x ! i)) = length (master x)"
    using Cons.prems by (simp add: list_all_length)
  then have "master x = [] \<Longrightarrow> fst (columns x ! i) = []" by simp
  then show ?case using Cons by auto
qed

lemma second_group:
  assumes "stored_as g og1" and "sorted (og_master og1)"
    and "\<forall>t \<in> set (og_master og1). in_window start stop t" and "og_columns og1 \<noteq> []"
    and "group_result interp start stop include_ends g G"
  shows "\<exists>og2. G = [og2] \<and> same_values og2 og1"
proof -
  let ?n = "length (og_columns og1)"
  let ?frs = "fragments g"
  let ?ne = "filter (\<lambda>f. master f \<noteq> []) ?frs"
  have cn: "channel_names g \<noteq> []" "length (channel_names g) = ?n" and fne: "?frs \<noteq> []"
    and shape: "\<forall>f \<in> set ?frs. length (columns f) = ?n \<and>
                  list_all (\<lambda>c. length (fst c) = length (master f)) (columns f)"
    and ms: "concat (map master ?frs) = og_master og1"
    and cs: "\<forall>i < ?n. concat (map (\<lambda>f. fst (columns f ! i)) ?frs) = fst (og_columns og1 ! i)"
    using assms(1,4) by (auto simp: stored_as_def list_all_iff)
  have srt: "\<forall>f \<in> set ?frs. sorted (master f) \<and> (\<forall>t \<in> set (master f). in_window start stop t)"
  proof
    fix f assume f: "f \<in> set ?frs"
    have "sorted (concat (map master ?frs))" using assms(2) ms by simp
    then have "sorted (master f)" using f by (rule sorted_concat_member)
    moreover have "set (master f) \<subseteq> set (og_master og1)" using f ms [symmetric] by auto
    ultimately show "sorted (master f) \<and> (\<forall>t \<in> set (master f). in_window start stop t)"
      using assms(3) by blast
  qed
  have em: "emitted interp start stop include_ends ?frs
      = map (\<lambda>f. (master f, first_signals f)) ?ne"
    using srt by (rule emitted_keep)
  have cf: "\<forall>i < ?n. concat (map (\<lambda>f. fst (columns f ! i)) ?ne) = fst (og_columns og1 ! i)"
  proof (intro allI impI)
    fix i assume i: "i < ?n"
    have "concat (map (\<lambda>f. fst (columns f ! i)) ?ne) = concat (map (\<lambda>f. fst (columns f ! i)) ?frs)"
      using shape i by (intro concat_filter_columns) simp
    then show "concat (map (\<lambda>f. fst (columns f ! i)) ?ne) = fst (og_columns og1 ! i)"
      using cs i by simp
  qed
  have mf: "concat (map master ?ne) = og_master og1"
    using ms by (simp add: concat_filter_masters)
  show ?thesis
  proof (cases ?ne)
    case Nil
    then have "emitted interp start stop include_ends ?frs = []" using em by simp
    then obtain og where og: "G = [og]" "zero_group (vg_key g) (length (channel_names g)) og"
      using assms(5) cn(1) fne by (auto simp: group_result_def)
    have m: "og_master og = og_master og1" using og(2) mf Nil by (simp add: zero_group_def)
    have len: "length (og_columns og) = ?n" using og(2) cn(2) by (simp add: zero_group_def)
    have "map fst (og_columns og) = map fst (og_columns og1)"
    proof (rule nth_equalityI)
      show "length (map fst (og_columns og)) = length (map fst (og_columns og1))" using len by simp
      fix i assume "i < length (map fst (og_columns og))"
      then have i: "i < ?n" using len by simp
      have "fst (og_columns og ! i) = []"
        using og(2) i len by (simp add: zero_group_def list_all_length)
      moreover have "fst (og_columns og1 ! i) = []" using cf i Nil by simp
      ultimately show "map fst (og_columns og) ! i = map fst (og_columns og1) ! i"
        using i len by simp
    qed
    then show ?thesis using og(1) m by (simp add: same_values_def)
  next
    case (Cons f0 rest)
    have sub: "set ?ne \<subseteq> set ?frs" by auto
    have f0: "length (columns f0) = ?n" and rs: "\<forall>f \<in> set rest. length (columns f) = ?n"
      using shape sub Cons by auto
    define og2 where "og2 = fold ext (map (\<lambda>f. (master f, first_signals f)) rest)
        (first_group (vg_key g) (first_signals f0))"
    have G: "G = [og2]"
      using assms(5) cn(1) em Cons by (simp add: group_result_def build_def og2_def)
    have fg: "og_columns (first_group (vg_key g) (first_signals f0)) = columns f0"
      by (simp add: first_group_def signal_columns_first_signals)
    have fm: "og_master (first_group (vg_key g) (first_signals f0)) = master f0"
    proof -
      obtain sig sigs where "first_signals f0 = sig # sigs"
        using f0 assms(4) by (cases "first_signals f0") (auto simp: first_signals_def)
      moreover from this have "timestamps sig = master f0"
        by (intro timestamps_first_signals) simp
      ultimately show ?thesis by (simp add: first_group_def)
    qed
    have keep: "length (og_columns og2) = ?n \<and>
         (\<forall>i < ?n. fst (og_columns og2 ! i)
            = fst (columns f0 ! i) @ concat (map (\<lambda>f. fst (columns f ! i)) rest))"
      using fold_ext_keep [OF rs, of "first_group (vg_key g) (first_signals f0)"] f0
      by (simp add: og2_def fg)
    have m: "og_master og2 = og_master og1"
      using mf by (simp add: og2_def og_master_fold_ext fm Cons comp_def)
    have "map fst (og_columns og2) = map fst (og_columns og1)"
    proof (rule nth_equalityI)
      show "length (map fst (og_columns og2)) = length (map fst (og_columns og1))"
        using keep by simp
      fix i assume "i < length (map fst (og_columns og2))"
      then have i: "i < ?n" using keep by simp
      have "fst (og_columns og2 ! i) = fst (og_columns og1 ! i)"
        using keep cf i by (simp add: Cons)
      then show "map fst (og_columns og2) ! i = map fst (og_columns og1) ! i"
        using i keep by simp
    qed
    then show ?thesis using G m by (simp add: same_values_def)
  qed
qed

lemma second_groups:
  assumes "list_all2 stored_as gs out1"
    and "list_all2 (group_result interp start stop include_ends) gs Gs"
    and "\<forall>og \<in> set out1. sorted (og_master og) \<and>
           (\<forall>t \<in> set (og_master og). in_window start stop t) \<and> og_columns og \<noteq> []"
  shows "list_all2 same_values (concat Gs) out1"
  using assms
proof (induction gs out1 arbitrary: Gs rule: list_all2_induct)
  case Nil
  then show ?case by simp
next
  case (Cons g gs og1 out1)
  obtain G Gs' where Gs: "Gs = G # Gs'" "group_result interp start stop include_ends g G"
      "list_all2 (group_result interp start stop include_ends) gs Gs'"
    using Cons.prems(1) by (auto simp: list_all2_Cons1)
  obtain og2 where og2: "G = [og2]" "same_values og2 og1"
    using second_group [OF Cons.hyps(1) _ _ _ Gs(2)] Cons.prems(2) by auto
  have "list_all2 same_values (concat Gs') out1"
    using Cons.IH [OF Gs(3)] Cons.prems(2) by simp
  then show ?case using og2 by (simp add: Gs(1))
qed

lemma stored_as_shaped: "stored_as g og \<Longrightarrow> shaped_group g"
  by (auto simp: stored_as_def shaped_group_def list_all_iff)

text \<open>
  C6. A call \<^verbatim>\<open>cut(a, b)\<close> on a file with sorted time stamps returns a file; read back
  and cut again with the same bounds (and not aborted), it gives a file with the same
  groups: the same time stamps and the same samples in every channel.
\<close>

theorem cut_idempotent:
  assumes "whence \<noteq> 1" and "list_all shaped_group (vgroups m)"
    and "\<forall>g \<in> set (vgroups m). sorted (concat (map master (fragments g)))"
    and "fst (cut interp terminate m start stop whence include_ends False) = Inr (Some out1)"
    and "list_all2 stored_as (vgroups m2) out1" and "\<forall>k. \<not> terminate2 k"
  shows "\<exists>out2. fst (cut interp2 terminate2 m2 start stop whence include_ends False)
             = Inr (Some out2) \<and>
           list_all2 same_values out2 out1"
proof -
  obtain Gs where Gs: "list_all2 (group_result interp start stop include_ends) (vgroups m) Gs"
      and out1: "out1 = concat Gs"
    using cut_result [OF assms(1,2,4)] by blast
  have ne: "out1 \<noteq> []" using assms(1,2,4) by (rule cut_result_nonempty)
  have props: "\<forall>og \<in> set out1. sorted (og_master og) \<and>
           (\<forall>t \<in> set (og_master og). in_window start stop t) \<and> og_columns og \<noteq> []"
  proof
    fix og assume "og \<in> set out1"
    then obtain g G where g: "g \<in> set (vgroups m)" "group_result interp start stop include_ends g G"
        "og \<in> set G"
      using concat_all2_member [OF Gs] out1 by blast
    have sg: "sorted (concat (map master (fragments g)))" using assms(3) g(1) by blast
    then have sf: "\<forall>f \<in> set (fragments g). sorted (master f)" using sorted_concat_member by blast
    have sh: "shaped_group g" using assms(2) g(1) by (simp add: list_all_iff)
    have 1: "sorted (og_master og)" using sg g(2,3) by (rule group_result_sorted)
    have 2: "\<forall>t \<in> set (og_master og). in_window start stop t"
      using group_result_in_window [OF sf g(2,3)] by blast
    have 3: "og_columns og \<noteq> []" using group_result_columns [OF sh g(2,3)] by auto
    show "sorted (og_master og) \<and>
           (\<forall>t \<in> set (og_master og). in_window start stop t) \<and> og_columns og \<noteq> []"
      using 1 2 3 by blast
  qed
  have sh2: "list_all shaped_group (vgroups m2)"
    using assms(5) by (induction rule: list_all2_induct) (simp_all add: stored_as_shaped)
  obtain Gs2 where Gs2: "list_all2 (group_result interp2 start stop include_ends) (vgroups m2) Gs2"
      and r: "fst (cut interp2 terminate2 m2 start stop whence include_ends False)
             = (if concat Gs2 = [] then Inl UnboundLocalError else Inr (Some (concat Gs2)))"
    using cut_success [OF assms(1) sh2 assms(6)] by blast
  have sv: "list_all2 same_values (concat Gs2) out1"
    using assms(5) Gs2 props by (rule second_groups)
  have "length (concat Gs2) = length out1" using sv by (rule list_all2_lengthD)
  then have "concat Gs2 \<noteq> []" using ne by (cases "concat Gs2") simp_all
  then show ?thesis using r sv by simp
qed

theorem cut_idempotent_witness:
  "fst (cut (\<lambda>sig t. (0, False)) (\<lambda>k. False)
          \<lparr>vgroups = [\<lparr>vg_key = 0, channel_names = [''S''],
                       fragments = [\<lparr>master = [0, 1], columns = [([10, 11 :: int], None)]\<rparr>,
                                    \<lparr>master = [2, 3], columns = [([12, 13], None)]\<rparr>]\<rparr>],
           start_time = 0, copy_on_get = True\<rparr> (Some (1 / 2)) (Some (5 / 2)) 0 True False)
     = Inr (Some [\<lparr>og_source = 0, og_master = [1 / 2, 1, 2, 5 / 2],
                   og_columns = [([0, 11, 12, 0], None)]\<rparr>]) \<and>
   (\<exists>out2. fst (cut (\<lambda>sig t. (7, True)) (\<lambda>k. False)
          \<lparr>vgroups = [\<lparr>vg_key = 0, channel_names = [''S''],
                       fragments = [\<lparr>master = [1 / 2, 1, 2], columns = [([0, 11, 12 :: int], None)]\<rparr>,
                                    \<lparr>master = [5 / 2], columns = [([0], None)]\<rparr>]\<rparr>],
           start_time = 0, copy_on_get = True\<rparr> (Some (1 / 2)) (Some (5 / 2)) 0 True False)
       = Inr (Some out2) \<and>
     list_all2 same_values out2
       [\<lparr>og_source = 0, og_master = [1 / 2, 1, 2, 5 / 2],
         og_columns = [([0, 11, 12, 0 :: int], None)]\<rparr>])"
proof -
  let ?g = "\<lparr>vg_key = 0, channel_names = [''S''],
             fragments = [\<lparr>master = [0, 1], columns = [([10, 11 :: int], None)]\<rparr>,
                          \<lparr>master = [2, 3], columns = [([12, 13 :: int], None)]\<rparr>]\<rparr>"
  let ?M = "\<lparr>vgroups = [?g], start_time = 0, copy_on_get = True\<rparr>"
  let ?og = "\<lparr>og_source = 0, og_master = [1 / 2, 1, 2, 5 / 2],
              og_columns = [([0, 11, 12, 0 :: int], None)]\<rparr>"
  let ?g2 = "\<lparr>vg_key = 0, channel_names = [''S''],
       fragments = [\<lparr>master = [1 / 2, 1, 2], columns = [([0, 11, 12 :: int], None)]\<rparr>,
                    \<lparr>master = [5 / 2], columns = [([0 :: int], None)]\<rparr>]\<rparr>"
  let ?M2 = "\<lparr>vgroups = [?g2], start_time = 0, copy_on_get = True\<rparr>"
  have c: "fst (cut (\<lambda>sig t. (0, False)) (\<lambda>k. False) ?M (Some (1 / 2)) (Some (5 / 2)) 0 True False)
      = Inr (Some [?og])"
    by (simp add: cut_def cut_group_def cut_fragment_def fragment_window_def emit_def
        first_signals_def append_group_def Let_def Signal_cut_def boundary_def in_window_def
        searchsorted_left_def searchsorted_right_def update_signals_def mdf_extend_def
        extend_group_def extend_bits_def signal_columns_def pick_def)
  have h1: "(0 :: int) \<noteq> 1" by simp
  have h2: "list_all shaped_group (vgroups ?M)" by (simp add: shaped_group_def)
  have h3: "\<forall>g \<in> set (vgroups ?M). sorted (concat (map master (fragments g)))" by simp
  have h5: "list_all2 stored_as (vgroups ?M2) [?og]" by (simp add: stored_as_def)
  have h6: "\<forall>k. \<not> (\<lambda>k. False) k" by simp
  show ?thesis
    using c cut_idempotent [OF h1 h2 h3 c h5 h6, of "\<lambda>sig t. (7, True)"] by blast
qed

subsection \<open>The summary of the CAN extraction\<close>

lemma fold_invariant:
  assumes "\<And>x s. x \<in> set xs \<Longrightarrow> I s \<Longrightarrow> I (f x s)" and "I s"
  shows "I (fold f xs s)"
  using assms by (induction xs arbitrary: s) simp_all

lemma dict_update_keys: "fst ` set (dict_update k f d) = insert k (fst ` set d)"
proof (induction d)
  case Nil
  then show ?case by simp
next
  case (Cons kv d)
  obtain k' v where kv: "kv = (k', v)" by (cases kv)
  show ?case
  proof (cases "k = k'")
    case True
    then show ?thesis by (simp add: kv)
  next
    case False
    then show ?thesis using Cons.IH by (simp add: kv insert_commute)
  qed
qed

lemma dict_append_flags:
  assumes "\<forall>(k, nf) \<in> set d. nf \<noteq> [] \<and> (\<forall>b \<in> set nf. b = P k)"
  shows "\<forall>(k, nf) \<in> set (dict_append k0 (P k0) d). nf \<noteq> [] \<and> (\<forall>b \<in> set nf. b = P k)"
  using assms unfolding dict_append_def
proof (induction d)
  case Nil
  then show ?case by simp
next
  case (Cons kv d)
  obtain k' v where kv: "kv = (k', v)" by (cases kv)
  show ?case
  proof (cases "k0 = k'")
    case True
    then show ?thesis using Cons.prems by (auto simp: kv)
  next
    case False
    then show ?thesis using Cons.IH Cons.prems by (auto simp: kv)
  qed
qed

lemma dict_add_single:
  assumes "d = (if A = {} then [] else [(name, A)])"
  shows "dict_add name x d = [(name, insert x A)]"
  using assms by (simp add: dict_add_def)

lemma id_steps:
  assumes "found_ids s = (if A = {} then [] else [(dbc_name, A)])"
    and "\<forall>(k, nf) \<in> set (unknown_ids s). nf \<noteq> [] \<and> (\<forall>b \<in> set nf. b = (map_of msgs k = None))"
  shows "total_unique_ids (fold (id_step msgs dbc_name) U s) = total_unique_ids s \<and>
    found_ids (fold (id_step msgs dbc_name) U s)
      = (let F = A \<union> {(k, n). k \<in> fst ` set U \<and> map_of msgs k = Some n}
         in if F = {} then [] else [(dbc_name, F)]) \<and>
    fst ` set (unknown_ids (fold (id_step msgs dbc_name) U s))
      = fst ` set (unknown_ids s) \<union> fst ` set U \<and>
    (\<forall>(k, nf) \<in> set (unknown_ids (fold (id_step msgs dbc_name) U s)).
        nf \<noteq> [] \<and> (\<forall>b \<in> set nf. b = (map_of msgs k = None)))"
  using assms
proof (induction U arbitrary: s A)
  case Nil
  then show ?case by (simp add: Let_def)
next
  case (Cons r U)
  define s1 where "s1 = id_step msgs dbc_name r s"
  define A1 where "A1 = A \<union> {(k, n). k = fst r \<and> map_of msgs k = Some n}"
  have t1: "total_unique_ids s1 = total_unique_ids s"
    by (simp add: s1_def id_step_def Let_def split: option.splits)
  have f1: "found_ids s1 = (if A1 = {} then [] else [(dbc_name, A1)])"
  proof (cases "map_of msgs (fst r)")
    case None
    then have "A1 = A" by (auto simp: A1_def)
    then show ?thesis using Cons.prems(1) None by (simp add: s1_def id_step_def Let_def)
  next
    case (Some n)
    then have a: "A1 = insert (fst r, n) A" by (auto simp: A1_def)
    have "found_ids s1 = dict_add dbc_name (fst r, n) (found_ids s)"
      using Some by (simp add: s1_def id_step_def Let_def)
    then show ?thesis using dict_add_single [OF Cons.prems(1)] a by simp
  qed
  have u1: "unknown_ids s1 = dict_append (fst r) (map_of msgs (fst r) = None) (unknown_ids s)"
    by (simp add: s1_def id_step_def Let_def split: option.splits)
  have k1: "fst ` set (unknown_ids s1) = insert (fst r) (fst ` set (unknown_ids s))"
    by (simp add: u1 dict_append_def dict_update_keys)
  have p1: "\<forall>(k, nf) \<in> set (unknown_ids s1). nf \<noteq> [] \<and> (\<forall>b \<in> set nf. b = (map_of msgs k = None))"
    unfolding u1 using Cons.prems(2) by (rule dict_append_flags)
  note IH = Cons.IH [OF f1 p1]
  have e: "A1 \<union> {(k, n). k \<in> fst ` set U \<and> map_of msgs k = Some n}
      = A \<union> {(k, n). k \<in> fst ` set (r # U) \<and> map_of msgs k = Some n}"
    by (auto simp: A1_def)
  show ?case
    using IH t1 k1 unfolding e by (simp add: s1_def [symmetric] Let_def insert_commute)
qed

lemma bus_step_inv:
  assumes "summary_inv msgs dbc_name (\<not> (is_j1939 \<and> \<not> consolidated_j1939)) s"
  shows "summary_inv msgs dbc_name (\<not> (is_j1939 \<and> \<not> consolidated_j1939))
           (bus_step is_j1939 consolidated_j1939 msgs dbc_name bus_channel rows bus s)"
proof (cases "bus_channel \<noteq> 0 \<and> uint bus \<noteq> bus_channel")
  case True
  then show ?thesis using assms by (simp add: bus_step_def)
next
  case False
  define U where "U = sort (remdups (map (\<lambda>(b, msg_id, original_id).
                                     if is_j1939 \<and> \<not> consolidated_j1939
                                     then (uint msg_id, uint original_id)
                                     else (uint msg_id, uint msg_id))
                            (filter (\<lambda>row. fst row = bus) rows)))"
  define s0 where "s0 = s\<lparr>total_unique_ids := total_unique_ids s \<union> set U\<rparr>"
  define A where "A = {(k, n). k \<in> fst ` total_unique_ids s \<and> map_of msgs k = Some n}"
  have step: "bus_step is_j1939 consolidated_j1939 msgs dbc_name bus_channel rows bus s
      = fold (id_step msgs dbc_name) U s0"
    unfolding bus_step_def using False by (simp only: if_not_P if_False Let_def U_def s0_def)
  have f0: "found_ids s0 = (if A = {} then [] else [(dbc_name, A)])"
    using assms by (simp add: summary_inv_def s0_def A_def Let_def)
  have p0: "\<forall>(k, nf) \<in> set (unknown_ids s0). nf \<noteq> [] \<and> (\<forall>b \<in> set nf. b = (map_of msgs k = None))"
    using assms by (simp add: summary_inv_def s0_def)
  note st = id_steps [OF f0 p0, of U]
  have tot: "total_unique_ids (fold (id_step msgs dbc_name) U s0) = total_unique_ids s \<union> set U"
    using st by (simp add: s0_def)
  have F: "A \<union> {(k, n). k \<in> fst ` set U \<and> map_of msgs k = Some n}
      = {(k, n). k \<in> fst ` (total_unique_ids s \<union> set U) \<and> map_of msgs k = Some n}"
    by (auto simp: A_def)
  have keys: "fst ` set (unknown_ids s0) = fst ` total_unique_ids s"
    using assms by (simp add: summary_inv_def s0_def)
  have strict: "\<not> (is_j1939 \<and> \<not> consolidated_j1939) \<longrightarrow>
      (\<forall>p \<in> total_unique_ids s \<union> set U. snd p = fst p)"
    using assms by (auto simp: summary_inv_def U_def)
  have fin: "finite (total_unique_ids s \<union> set U)"
    using assms by (simp add: summary_inv_def)
  show ?thesis
    unfolding step summary_inv_def tot
    using st fin strict keys unfolding F by (simp add: image_Un)
qed

lemma group_step_inv:
  assumes "summary_inv msgs dbc_name (\<not> (is_j1939 \<and> \<not> consolidated_j1939)) s"
  shows "summary_inv msgs dbc_name (\<not> (is_j1939 \<and> \<not> consolidated_j1939))
           (group_step is_j1939 consolidated_j1939 msgs dbc_name bus_channel grp s)"
proof -
  let ?I = "summary_inv msgs dbc_name (\<not> (is_j1939 \<and> \<not> consolidated_j1939))"
  have fr: "?I (fragment_step is_j1939 consolidated_j1939 msgs dbc_name bus_channel fragment s')"
    if k: "?I s'" for fragment s'
    unfolding fragment_step_def Let_def
  proof (rule fold_invariant [where I = ?I])
    show "?I s'" by (rule k)
    show "?I (bus_step is_j1939 consolidated_j1939 msgs dbc_name bus_channel rows x s'')"
      if "?I s''" for x s'' rows
      using that by (rule bus_step_inv)
  qed
  have "?I (fold (fragment_step is_j1939 consolidated_j1939 msgs dbc_name bus_channel)
             (frames grp) s)"
  proof (rule fold_invariant [where I = ?I])
    show "?I s" by (rule assms)
    show "?I (fragment_step is_j1939 consolidated_j1939 msgs dbc_name bus_channel x s')"
      if "?I s'" for x s'
      using that by (rule fr)
  qed
  then show ?thesis using assms by (simp add: group_step_def)
qed

lemma catalog_step_inv:
  assumes "summary_inv (messages dbc) dbc_name (\<not> (contains_j1939 dbc \<and> \<not> consolidated_j1939)) s"
  shows "summary_inv (messages dbc) dbc_name (\<not> (contains_j1939 dbc \<and> \<not> consolidated_j1939))
           (catalog_step groups consolidated_j1939 (dbc, dbc_name, bus_channel) s)"
proof -
  let ?I = "summary_inv (messages dbc) dbc_name (\<not> (contains_j1939 dbc \<and> \<not> consolidated_j1939))"
  define s1 where "s1 = fold (group_step (contains_j1939 dbc) consolidated_j1939 (messages dbc)
      dbc_name bus_channel) groups (s\<lparr>current_not_found_ids := set (messages dbc)\<rparr>)"
  have "?I s1"
    unfolding s1_def
  proof (rule fold_invariant [where I = ?I])
    show "?I (s\<lparr>current_not_found_ids := set (messages dbc)\<rparr>)"
      using assms by (simp add: summary_inv_def)
    show "?I (group_step (contains_j1939 dbc) consolidated_j1939 (messages dbc) dbc_name
                bus_channel x s')" if "?I s'" for x s'
      using that by (rule group_step_inv)
  qed
  moreover have "?I (s1\<lparr>not_found_ids := d\<rparr>)" if "?I s1" for d
    using that by (simp add: summary_inv_def)
  ultimately show ?thesis by (simp add: catalog_step_def Let_def s1_def [symmetric])
qed

lemma summary_inv_totals:
  assumes "summary_inv msgs dbc_name strict s"
  defines "K \<equiv> fst ` total_unique_ids s"
    and "F \<equiv> {(k, n). k \<in> fst ` total_unique_ids s \<and> map_of msgs k = Some n}"
    and "unknown \<equiv> set (map fst (filter (\<lambda>(msg_id, not_found). list_all (\<lambda>b. b) not_found)
                                         (unknown_ids s)))"
  shows "fst ` F \<union> unknown = K \<and> fst ` F \<inter> unknown = {} \<and> card F + card unknown = card K \<and>
         card K \<le> card (total_unique_ids s) \<and> (strict \<longrightarrow> card K = card (total_unique_ids s)) \<and>
         found_ids s = (if F = {} then [] else [(dbc_name, F)])"
proof -
  have fin: "finite (total_unique_ids s)" and keys: "fst ` set (unknown_ids s) = K"
    and flags: "\<forall>(k, nf) \<in> set (unknown_ids s). nf \<noteq> [] \<and> (\<forall>b \<in> set nf. b = (map_of msgs k = None))"
    and str: "strict \<longrightarrow> (\<forall>p \<in> total_unique_ids s. snd p = fst p)"
    and fnd: "found_ids s = (if F = {} then [] else [(dbc_name, F)])"
    using assms(1) by (simp_all add: summary_inv_def K_def F_def Let_def)
  have finK: "finite K" using fin by (simp add: K_def)
  have u: "unknown = {k \<in> K. map_of msgs k = None}"
  proof (intro set_eqI iffI)
    fix k assume "k \<in> unknown"
    then obtain nf where nf: "(k, nf) \<in> set (unknown_ids s)" "list_all (\<lambda>b. b) nf"
      by (auto simp: unknown_def)
    have "nf \<noteq> []" "\<forall>b \<in> set nf. b = (map_of msgs k = None)" using flags nf(1) by auto
    then have "map_of msgs k = None" using nf(2) by (cases nf) auto
    moreover have "k \<in> K" using nf(1) keys by force
    ultimately show "k \<in> {k \<in> K. map_of msgs k = None}" by simp
  next
    fix k assume "k \<in> {k \<in> K. map_of msgs k = None}"
    then have k: "k \<in> K" "map_of msgs k = None" by simp_all
    then obtain nf where nf: "(k, nf) \<in> set (unknown_ids s)" using keys by force
    have "\<forall>b \<in> set nf. b" using flags nf k(2) by auto
    then have "list_all (\<lambda>b. b) nf" by (simp add: list_all_iff)
    then show "k \<in> unknown" using nf by (force simp: unknown_def)
  qed
  have f: "F = (\<lambda>k. (k, the (map_of msgs k))) ` {k \<in> K. map_of msgs k \<noteq> None}"
    by (auto simp: F_def K_def image_iff)
  have fk: "fst ` F = {k \<in> K. map_of msgs k \<noteq> None}"
    by (auto simp: f image_iff)
  have "inj_on (\<lambda>k. (k, the (map_of msgs k))) {k \<in> K. map_of msgs k \<noteq> None}"
    by (rule inj_onI) simp
  then have cf: "card F = card {k \<in> K. map_of msgs k \<noteq> None}"
    unfolding f by (rule card_image)
  have split: "K = {k \<in> K. map_of msgs k \<noteq> None} \<union> {k \<in> K. map_of msgs k = None}" by auto
  have "card K = card {k \<in> K. map_of msgs k \<noteq> None} + card {k \<in> K. map_of msgs k = None}"
    using finK by (subst split, intro card_Un_disjoint) auto
  then have 3: "card F + card unknown = card K" using cf u by simp
  have 4: "card K \<le> card (total_unique_ids s)"
    unfolding K_def using fin by (rule card_image_le)
  have 5: "card K = card (total_unique_ids s)" if strict
  proof -
    have "inj_on fst (total_unique_ids s)"
      using str that by (intro inj_onI) (auto simp: prod_eq_iff)
    then show ?thesis unfolding K_def by (rule card_image)
  qed
  show ?thesis using fk u 3 4 5 fnd by auto
qed

text \<open>
  C7, amended. A run of \<^verbatim>\<open>extract_bus_logging\<close> with one CAN catalog records a summary.
  Writing \<open>found\<close> for the identifiers listed under the catalog, every first component of
  \<^verbatim>\<open>total_unique_ids\<close> is listed exactly once, as found or as unknown, and
  \<^verbatim>\<open>unknown_id_count\<close> is the number of unknown identifiers. The sum of the two counts is
  the size of \<^verbatim>\<open>total_unique_ids\<close> when the extraction is consolidated or the catalog is
  not a J1939 catalog; it never exceeds it.
\<close>

theorem can_summary_totals:
  "\<exists>info. extract_bus_logging groups [(dbc, dbc_name, bus_channel)] consolidated_j1939 = Some info \<and>
     info_unknown_id_count info = card (info_unknown_ids info) \<and>
     found_id_count info = card (found_for dbc_name info) \<and>
     fst ` found_for dbc_name info \<union> info_unknown_ids info = fst ` info_total_unique_ids info \<and>
     fst ` found_for dbc_name info \<inter> info_unknown_ids info = {} \<and>
     found_id_count info + info_unknown_id_count info \<le> card (info_total_unique_ids info) \<and>
     (consolidated_j1939 \<or> (\<forall>d. dbc = Some d \<longrightarrow> \<not> contains_j1939 d) \<longrightarrow>
        found_id_count info + info_unknown_id_count info = card (info_total_unique_ids info))"
proof -
  define s0 where "s0 = \<lparr>total_unique_ids = {}, found_ids = [], not_found_ids = [],
      unknown_ids = [], current_not_found_ids = {}\<rparr>"
  define s where "s = fold (catalog_step groups consolidated_j1939)
      (valid_dbc_files [(dbc, dbc_name, bus_channel)]) s0"
  define info where "info = extract_can_logging groups [(dbc, dbc_name, bus_channel)] consolidated_j1939"
  define strict where "strict = (consolidated_j1939 \<or> (\<forall>d. dbc = Some d \<longrightarrow> \<not> contains_j1939 d))"
  define msgs where "msgs = (case dbc of None \<Rightarrow> [] | Some d \<Rightarrow> messages d)"
  have i0: "summary_inv m dbc_name b s0" for m b
    by (simp add: summary_inv_def s0_def)
  have inv: "summary_inv msgs dbc_name strict s"
  proof (cases dbc)
    case None
    then have "s = s0" by (simp add: s_def valid_dbc_files_def List.map_filter_simps)
    then show ?thesis using i0 by simp
  next
    case (Some d)
    then have "s = catalog_step groups consolidated_j1939 (d, dbc_name, bus_channel) s0"
      by (simp add: s_def valid_dbc_files_def List.map_filter_simps)
    moreover have "strict = (\<not> (contains_j1939 d \<and> \<not> consolidated_j1939))"
      using Some by (auto simp: strict_def)
    ultimately show ?thesis
      using catalog_step_inv [OF i0 [of "messages d" "\<not> (contains_j1939 d \<and> \<not> consolidated_j1939)"],
          of groups bus_channel]
      by (simp add: msgs_def Some)
  qed
  note tot = summary_inv_totals [OF inv]
  have info: "info_total_unique_ids info = total_unique_ids s"
    "info_found_ids info = found_ids s"
    "info_unknown_ids info = set (map fst (filter (\<lambda>(msg_id, not_found). list_all (\<lambda>b. b) not_found)
                                         (unknown_ids s)))"
    "info_unknown_id_count info = card (info_unknown_ids info)"
    by (simp_all add: info_def extract_can_logging_def Let_def s_def s0_def)
  define F where "F = {(k, n). k \<in> fst ` total_unique_ids s \<and> map_of msgs k = Some n}"
  have fnd: "info_found_ids info = (if F = {} then [] else [(dbc_name, F)])"
    using tot by (simp add: info(2) F_def)
  have ff: "found_for dbc_name info = F" by (simp add: found_for_def fnd)
  have fc: "found_id_count info = card F" by (simp add: found_id_count_def fnd)
  have "extract_bus_logging groups [(dbc, dbc_name, bus_channel)] consolidated_j1939 = Some info"
    by (simp add: extract_bus_logging_def info_def)
  moreover have "info_unknown_id_count info = card (info_unknown_ids info)" by (rule info(4))
  moreover have "found_id_count info = card (found_for dbc_name info)" by (simp add: ff fc)
  moreover have "fst ` found_for dbc_name info \<union> info_unknown_ids info = fst ` info_total_unique_ids info"
    using tot by (simp add: ff info(1,3) F_def)
  moreover have "fst ` found_for dbc_name info \<inter> info_unknown_ids info = {}"
    using tot by (simp add: ff info(3) F_def)
  moreover have "found_id_count info + info_unknown_id_count info \<le> card (info_total_unique_ids info)"
    using tot by (simp add: fc info(1,3,4) F_def)
  moreover have "consolidated_j1939 \<or> (\<forall>d. dbc = Some d \<longrightarrow> \<not> contains_j1939 d) \<longrightarrow>
        found_id_count info + info_unknown_id_count info = card (info_total_unique_ids info)"
    using tot by (simp add: fc info(1,3,4) F_def strict_def)
  ultimately show ?thesis by blast
qed

theorem can_summary_totals_witness:
  "extract_bus_logging
     [\<lparr>bus_event = True, bus_type_can = True, has_dataframe = True, itemsize = 13,
       frames = [[\<lparr>BusChannel = 1, ID = 419361024\<rparr>, \<lparr>BusChannel = 1, ID = 419361025\<rparr>,
                  \<lparr>BusChannel = 1, ID = 291\<rparr>]]\<rparr>]
     [(Some \<lparr>contains_j1939 = True,
             db_messages = [\<lparr>arbitration_id = 419361024, arbitration_pgn = 65265,
                             message_name = ''CCVS''\<rparr>]\<rparr>,
       ''j1939.dbc'', 0)] True
   = Some \<lparr>info_total_unique_ids = {(0, 0), (65265, 65265)}, info_unknown_id_count = 1,
           info_not_found_ids = [],
           info_found_ids = [(''j1939.dbc'', {(65265, ''CCVS'')})],
           info_unknown_ids = {0}\<rparr> \<and>
   found_id_count \<lparr>info_total_unique_ids = {(0, 0), (65265, 65265)}, info_unknown_id_count = 1,
           info_not_found_ids = [],
           info_found_ids = [(''j1939.dbc'', {(65265, ''CCVS'')})],
           info_unknown_ids = {0}\<rparr> + 1 = card {(0 :: int, 0 :: int), (65265, 65265)}"
proof -
  let ?G = "[\<lparr>bus_event = True, bus_type_can = True, has_dataframe = True, itemsize = 13,
       frames = [[\<lparr>BusChannel = 1, ID = 419361024\<rparr>, \<lparr>BusChannel = 1, ID = 419361025\<rparr>,
                  \<lparr>BusChannel = 1, ID = 291\<rparr>]]\<rparr>]"
  let ?D = "\<lparr>contains_j1939 = True,
             db_messages = [\<lparr>arbitration_id = 419361024, arbitration_pgn = 65265,
                             message_name = ''CCVS''\<rparr>]\<rparr>"
  let ?I = "\<lparr>info_total_unique_ids = {(0, 0), (65265, 65265)}, info_unknown_id_count = 1,
           info_not_found_ids = [],
           info_found_ids = [(''j1939.dbc'', {(65265, ''CCVS'')})],
           info_unknown_ids = {0}\<rparr>"
  have c: "extract_bus_logging ?G [(Some ?D, ''j1939.dbc'', 0)] True = Some ?I"
    by code_simp
  obtain info where i: "extract_bus_logging ?G [(Some ?D, ''j1939.dbc'', 0)] True = Some info"
      "found_id_count info + info_unknown_id_count info = card (info_total_unique_ids info)"
    using can_summary_totals [of ?G "Some ?D" "''j1939.dbc''" 0 True] by auto
  have "info = ?I" using i(1) c by simp
  then have "found_id_count ?I + info_unknown_id_count ?I = card (info_total_unique_ids ?I)"
    using i(2) by simp
  then show ?thesis using c by simp
qed

text \<open>
  The equality of C7 fails for a J1939 catalog when \<^verbatim>\<open>consolidated_j1939\<close> is off: the
  frames \<^verbatim>\<open>0x18FEF100\<close> and \<^verbatim>\<open>0x18FEF101\<close> fold to the PGN \<^verbatim>\<open>0xFEF1\<close>, which is found
  once, no identifier is unknown, and \<^verbatim>\<open>total_unique_ids\<close> holds two pairs.
\<close>

theorem can_summary_j1939_counterexample:
  "extract_bus_logging
     [\<lparr>bus_event = True, bus_type_can = True, has_dataframe = True, itemsize = 13,
       frames = [[\<lparr>BusChannel = 1, ID = 419361024\<rparr>, \<lparr>BusChannel = 1, ID = 419361025\<rparr>]]\<rparr>]
     [(Some \<lparr>contains_j1939 = True,
             db_messages = [\<lparr>arbitration_id = 419361024, arbitration_pgn = 65265,
                             message_name = ''CCVS''\<rparr>]\<rparr>,
       ''j1939.dbc'', 0)] False
   = Some \<lparr>info_total_unique_ids = {(65265, 419361024), (65265, 419361025)},
           info_unknown_id_count = 0,
           info_not_found_ids = [],
           info_found_ids = [(''j1939.dbc'', {(65265, ''CCVS'')})],
           info_unknown_ids = {}\<rparr> \<and>
   card {(65265 :: int, ''CCVS'')} + card ({} :: int set) = (1 :: nat) \<and>
   card {(65265 :: int, 419361024 :: int), (65265, 419361025)} = (2 :: nat)"
  by code_simp

subsection \<open>The structure check of \<^verbatim>\<open>concatenate\<close> on well-formed files\<close>

lemma cat_first_wf:
  assumes "wf_fragment fr"
  shows "\<exists>st'. cat_first origin aso mdf_index offset key (first_signals fr) st = Inr st' \<and>
           dom (ct_cg_map st') = insert key (dom (ct_cg_map st))"
proof -
  obtain c cs where c: "columns fr = c # cs" using assms by (cases "columns fr") (auto simp: wf_fragment_def)
  have "length (fst c) = length (master fr)" using assms c by (simp add: wf_fragment_def)
  then have "fst c \<noteq> [] \<Longrightarrow> master fr \<noteq> []" by auto
  then show ?thesis
    by (cases c) (auto simp: cat_first_def first_signals_def c Let_def)
qed

lemma place_total:
  assumes "length r = length cs" and "\<forall>i \<in> set r. i < length acc"
  shows "\<exists>acc'. place acc (zip r cs) = Inr acc' \<and> length acc' = length acc \<and>
           (\<forall>i < length acc. i \<in> set r \<or> acc ! i \<noteq> None \<longrightarrow> acc' ! i \<noteq> None)"
  using assms
proof (induction r cs arbitrary: acc rule: list_induct2)
  case Nil
  then show ?case by simp
next
  case (Cons x xs y ys)
  have x: "x < length acc" using Cons.prems by simp
  have "\<forall>i \<in> set xs. i < length (acc[x := Some y])" using Cons.prems by simp
  then obtain acc' where a: "place (acc[x := Some y]) (zip xs ys) = Inr acc'"
      "length acc' = length (acc[x := Some y])"
      "\<forall>i < length (acc[x := Some y]). i \<in> set xs \<or> acc[x := Some y] ! i \<noteq> None \<longrightarrow> acc' ! i \<noteq> None"
    using Cons.IH [of "acc[x := Some y]"] by blast
  have "place acc (zip (x # xs) (y # ys)) = Inr acc'" using x a(1) by simp
  moreover have "length acc' = length acc" using a(2) by simp
  moreover have "\<forall>i < length acc. i \<in> set (x # xs) \<or> acc ! i \<noteq> None \<longrightarrow> acc' ! i \<noteq> None"
  proof (intro allI impI)
    fix i assume i: "i < length acc" and h: "i \<in> set (x # xs) \<or> acc ! i \<noteq> None"
    have "i \<in> set xs \<or> acc[x := Some y] ! i \<noteq> None"
      using h i by (cases "i = x") auto
    then show "acc' ! i \<noteq> None" using a(3) i by auto
  qed
  ultimately show ?case by blast
qed

lemma place_permutation:
  assumes "length r = length cs" and "set r = {..<length cs}"
  shows "\<exists>acc'. place (replicate (length cs) None) (zip r cs) = Inr acc' \<and> None \<notin> set acc'"
proof -
  have "\<forall>i \<in> set r. i < length (replicate (length cs) (None :: 'a option))" using assms(2) by simp
  then obtain acc' where a: "place (replicate (length cs) None) (zip r cs) = Inr acc'"
      "length acc' = length (replicate (length cs) (None :: 'a option))"
      "\<forall>i < length (replicate (length cs) (None :: 'a option)).
          i \<in> set r \<or> replicate (length cs) (None :: 'a option) ! i \<noteq> None \<longrightarrow> acc' ! i \<noteq> None"
    using place_total [OF assms(1), of "replicate (length cs) None"] by blast
  have "\<forall>i < length acc'. acc' ! i \<noteq> None" using a(2,3) assms(2) by simp
  then have "None \<notin> set acc'" by (metis in_set_conv_nth)
  then show ?thesis using a(1) by blast
qed

lemma cat_next_wf:
  assumes "wf_fragment fr" and "key \<in> dom (ct_cg_map st)"
    and "dco \<longrightarrow> length remap = length (columns fr) \<and> set remap = {..<length (columns fr)}"
  shows "\<exists>st'. cat_next origin aso dtc mdf_index offset key dco remap idx fr st = Inr st' \<and>
           ct_cg_map st' = ct_cg_map st"
proof -
  obtain new_signals where n: "(if dco
            then place (replicate (length (columns fr)) None) (zip remap (columns fr))
            else Inr (map Some (columns fr))) = Inr new_signals" "None \<notin> set new_signals"
  proof (cases dco)
    case True
    then show ?thesis using place_permutation [of remap "columns fr"] assms(3) that by auto
  next
    case False
    then show ?thesis using that [of "map Some (columns fr)"] by auto
  qed
  obtain cg_nr where k: "ct_cg_map st key = Some cg_nr" using assms(2) by auto
  show ?thesis
    unfolding cat_next_def n
    using n(2) k by (auto simp: Let_def split: prod.splits)
qed

lemma cat_fragments_wf:
  assumes "list_all wf_fragment frs"
    and "\<forall>fr \<in> set frs. dco \<longrightarrow> length remap = length (columns fr) \<and> set remap = {..<length (columns fr)}"
    and "\<not> (mdf_index = 0 \<and> idx = 0) \<longrightarrow> key \<in> dom (ct_cg_map st)"
  shows "\<exists>st'. cat_fragments origin aso dtc mdf_index offset key dco remap idx frs st = Inr st' \<and>
           dom (ct_cg_map st') = (if mdf_index = 0 \<and> idx = 0 \<and> frs \<noteq> []
                                  then insert key (dom (ct_cg_map st)) else dom (ct_cg_map st))"
  using assms
proof (induction frs arbitrary: idx st)
  case Nil
  then show ?case by simp
next
  case (Cons fr rest)
  have wf: "wf_fragment fr" and wr: "list_all wf_fragment rest" using Cons.prems(1) by simp_all
  have cne: "columns fr \<noteq> []" using wf by (simp add: wf_fragment_def)
  have rm: "\<forall>fr \<in> set rest. dco \<longrightarrow> length remap = length (columns fr) \<and> set remap = {..<length (columns fr)}"
    using Cons.prems(2) by (meson list.set_intros(2))
  show ?case
  proof (cases "mdf_index = 0 \<and> idx = 0")
    case True
    obtain st1 where s1: "cat_first origin aso mdf_index offset key (first_signals fr) st = Inr st1"
        "dom (ct_cg_map st1) = insert key (dom (ct_cg_map st))"
      using cat_first_wf [OF wf] by blast
    have "key \<in> dom (ct_cg_map st1)" using s1(2) by simp
    then obtain st' where s': "cat_fragments origin aso dtc mdf_index offset key dco remap (Suc idx) rest st1 = Inr st'"
        "dom (ct_cg_map st') = dom (ct_cg_map st1)"
      using Cons.IH [OF wr rm, of "Suc idx" st1] by auto
    show ?thesis using True cne s1 s' by simp
  next
    case False
    then have k: "key \<in> dom (ct_cg_map st)" using Cons.prems(3) by simp
    have "dco \<longrightarrow> length remap = length (columns fr) \<and> set remap = {..<length (columns fr)}"
      using Cons.prems(2) by simp
    then obtain st1 where s1: "cat_next origin aso dtc mdf_index offset key dco remap idx fr st = Inr st1"
        "ct_cg_map st1 = ct_cg_map st"
      using cat_next_wf [OF wf k] by blast
    have "key \<in> dom (ct_cg_map st1)" using s1(2) k by simp
    then obtain st' where s': "cat_fragments origin aso dtc mdf_index offset key dco remap (Suc idx) rest st1 = Inr st'"
        "dom (ct_cg_map st') = dom (ct_cg_map st1)"
      using Cons.IH [OF wr rm, of "Suc idx" st1] by auto
    have "cat_fragments origin aso dtc mdf_index offset key dco remap idx (fr # rest) st = Inr st'"
      using False cne s1(1) s'(1) by auto
    then show ?thesis using False s'(2) s1(2) by auto
  qed
qed

lemma index_of_member:
  "x \<in> set xs \<Longrightarrow> index_of xs x < length xs \<and> xs ! index_of xs x = x"
  by (induction xs) (auto simp: index_of_def)

lemma remap_permutation:
  assumes "sort names = sort names0" and "distinct names"
  shows "length (map (index_of names0) names) = length names \<and>
         set (map (index_of names0) names) = {..<length names}"
proof -
  have st: "set names = set names0" using assms(1) by (metis set_sort)
  have ln: "length names = length names0" using assms(1) by (metis length_sort)
  have inj: "inj_on (index_of names0) (set names)"
  proof (rule inj_onI)
    fix x y assume "x \<in> set names" "y \<in> set names" "index_of names0 x = index_of names0 y"
    then show "x = y" using index_of_member [of x names0] index_of_member [of y names0] st by metis
  qed
  have sub: "index_of names0 ` set names \<subseteq> {..<length names}"
    using index_of_member st ln by fastforce
  have "card (index_of names0 ` set names) = card (set names)" using inj by (rule card_image)
  also have "\<dots> = length names" using assms(2) by (rule distinct_card)
  finally have "card (index_of names0 ` set names) = card {..<length names}" by simp
  then have "index_of names0 ` set names = {..<length names}"
    using sub by (intro card_subset_eq) simp_all
  then show ?thesis by simp
qed

lemma cat_group_rest_wf:
  assumes "wf_group g"
    and "dco \<longrightarrow> length remap = length (channel_names g) \<and> set remap = {..<length (channel_names g)}"
    and "mdf_index \<noteq> 0 \<and> channel_names g \<noteq> [] \<longrightarrow> vg_key g \<in> dom (ct_cg_map st)"
  shows "\<exists>st'. cat_group_rest origin aso dtc mdf_index offset i dco remap g st = Inr st' \<and>
           dom (ct_cg_map st') = (if mdf_index = 0 \<and> channel_names g \<noteq> []
                                  then insert (vg_key g) (dom (ct_cg_map st))
                                  else dom (ct_cg_map st))"
proof (cases "channel_names g = []")
  case True
  then show ?thesis by (simp add: cat_group_rest_def)
next
  case False
  define st0 where "st0 = st\<lparr>ct_last := ct_last_timestamps st ! i\<rparr>"
  have fr: "fragments g \<noteq> []"
      "list_all (\<lambda>fr. wf_fragment fr \<and> length (columns fr) = length (channel_names g)) (fragments g)"
    using assms(1) False by (simp_all add: wf_group_def)
  have 1: "list_all wf_fragment (fragments g)" using fr(2) by (simp add: list_all_iff)
  have 2: "\<forall>fr \<in> set (fragments g). dco \<longrightarrow>
      length remap = length (columns fr) \<and> set remap = {..<length (columns fr)}"
    using fr(2) assms(2) by (simp add: list_all_iff)
  have 3: "\<not> (mdf_index = 0 \<and> (0 :: nat) = 0) \<longrightarrow> vg_key g \<in> dom (ct_cg_map st0)"
    using assms(3) False by (simp add: st0_def)
  obtain st1 where s1: "cat_fragments origin aso dtc mdf_index offset (vg_key g) dco remap 0
        (fragments g) st0 = Inr st1"
      "dom (ct_cg_map st1) = (if mdf_index = 0 \<and> (0 :: nat) = 0 \<and> fragments g \<noteq> []
                                  then insert (vg_key g) (dom (ct_cg_map st0))
                                  else dom (ct_cg_map st0))"
    using cat_fragments_wf [OF 1 2 3] by blast
  show ?thesis
    using False s1 fr(1) by (simp add: cat_group_rest_def st0_def [symmetric]) (simp add: st0_def)
qed

lemma cat_group_first_wf:
  assumes "wf_group g"
  shows "\<exists>st'. cat_group origin aso dtc 0 offset i g st = Inr st' \<and>
           dom (ct_cg_map st') = (if channel_names g \<noteq> []
                                  then insert (vg_key g) (dom (ct_cg_map st))
                                  else dom (ct_cg_map st))"
proof -
  define st0 where "st0 = st\<lparr>ct_names := ct_names st @ [channel_names g]\<rparr>"
  have d: "dom (ct_cg_map st0) = dom (ct_cg_map st)" by (simp add: st0_def)
  have c: "cat_group origin aso dtc 0 offset i g st
      = cat_group_rest origin aso dtc 0 offset i False [] g st0"
    by (simp add: cat_group_def st0_def)
  show ?thesis
    unfolding c d [symmetric]
    using cat_group_rest_wf [OF assms, of False "[]" 0 st0 origin aso dtc offset i] by simp
qed

lemma cat_groups_first_wf:
  assumes "list_all wf_group gs"
  shows "\<exists>st'. cat_groups origin aso dtc 0 offset i gs st = Inr st' \<and>
           dom (ct_cg_map st') = dom (ct_cg_map st) \<union> {vg_key g |g. g \<in> set gs \<and> channel_names g \<noteq> []}"
  using assms
proof (induction gs arbitrary: i st)
  case Nil
  then show ?case by simp
next
  case (Cons g gs)
  obtain st1 where s1: "cat_group origin aso dtc 0 offset i g st = Inr st1"
      "dom (ct_cg_map st1) = (if channel_names g \<noteq> []
                                  then insert (vg_key g) (dom (ct_cg_map st))
                                  else dom (ct_cg_map st))"
  proof -
    have "wf_group g" using Cons.prems by simp
    then show ?thesis using cat_group_first_wf [of g origin aso dtc offset i st] that by blast
  qed
  have "list_all wf_group gs" using Cons.prems by simp
  then obtain st' where s': "cat_groups origin aso dtc 0 offset (Suc i) gs st1 = Inr st'"
      "dom (ct_cg_map st') = dom (ct_cg_map st1) \<union> {vg_key g |g. g \<in> set gs \<and> channel_names g \<noteq> []}"
    using Cons.IH [of "Suc i" st1] by blast
  have "cat_groups origin aso dtc 0 offset i (g # gs) st = Inr st'" using s1(1) s'(1) by simp
  moreover have "dom (ct_cg_map st') = dom (ct_cg_map st) \<union>
      {vg_key h |h. h \<in> set (g # gs) \<and> channel_names h \<noteq> []}"
    unfolding s'(2) s1(2) by auto
  ultimately show ?case by blast
qed

lemma cat_file_first_wf:
  assumes "wf_file first" and "ct_names st = []"
  shows "\<exists>st'. fst (cat_file origin aso dtc 0 offset first st) = Inr st' \<and> first_merged first st'"
proof -
  define st1 where "st1 = st\<lparr>ct_last_timestamps := replicate (length (vgroups first)) None,
                         ct_groups_nr := length (vgroups first)\<rparr>"
  have wg: "list_all wf_group (vgroups first)"
    and keys: "map vg_key (vgroups first) = [0..<length (vgroups first)]"
    using assms(1) by (simp_all add: wf_file_def)
  obtain st' where s': "cat_groups origin aso dtc 0 offset 0 (vgroups first) st1 = Inr st'"
      "dom (ct_cg_map st') = dom (ct_cg_map st1) \<union>
         {vg_key g |g. g \<in> set (vgroups first) \<and> channel_names g \<noteq> []}"
    using cat_groups_first_wf [OF wg] by blast
  have r: "fst (cat_file origin aso dtc 0 offset first st) = Inr st'"
    using s'(1) by (simp add: cat_file_def Let_def st1_def)
  have n: "ct_names st' = map channel_names (vgroups first)" "ct_groups_nr st' = length (vgroups first)"
    using cat_file_first_Inr [OF r assms(2)] by simp_all
  have "j \<in> dom (ct_cg_map st')"
    if j: "j < length (vgroups first)" "channel_names (vgroups first ! j) \<noteq> []" for j
  proof -
    have "vg_key (vgroups first ! j) = j"
      using keys j(1) by (metis add_0 length_map nth_map nth_upt)
    moreover have "vgroups first ! j \<in> set (vgroups first)" using j(1) by simp
    ultimately have "j \<in> {vg_key g |g. g \<in> set (vgroups first) \<and> channel_names g \<noteq> []}"
      using j(2) by force
    then show ?thesis using s'(2) by simp
  qed
  then show ?thesis using r n by (auto simp: first_merged_def)
qed

lemma cat_group_later_wf:
  assumes "mdf_index \<noteq> 0" and "wf_group g"
    and "ct_names st ! i \<noteq> [] \<longrightarrow> vg_key g \<in> dom (ct_cg_map st)"
  shows "cat_group origin aso dtc mdf_index offset i g st = Inl (MdfException Different_channels) \<or>
         (\<exists>st'. cat_group origin aso dtc mdf_index offset i g st = Inr st' \<and>
                dom (ct_cg_map st') = dom (ct_cg_map st))"
proof (cases "channel_names g = ct_names st ! i")
  case True
  have "mdf_index \<noteq> 0 \<and> channel_names g \<noteq> [] \<longrightarrow> vg_key g \<in> dom (ct_cg_map st)"
    using assms(3) True by simp
  then show ?thesis
    using cat_group_rest_wf [OF assms(2), of False "[]" mdf_index st origin aso dtc offset i] assms(1) True
    by (simp add: cat_group_def)
next
  case False
  show ?thesis
  proof (cases "sort (channel_names g) = sort (ct_names st ! i)")
    case ne: False
    then show ?thesis using assms(1) False by (simp add: cat_group_def)
  next
    case eq: True
    have d: "distinct (channel_names g)" using assms(2) by (simp add: wf_group_def)
    note rp = remap_permutation [OF eq d]
    have "length (channel_names g) = length (ct_names st ! i)" using eq by (metis length_sort)
    then have "channel_names g \<noteq> [] \<longrightarrow> ct_names st ! i \<noteq> []" by auto
    then have k: "mdf_index \<noteq> 0 \<and> channel_names g \<noteq> [] \<longrightarrow> vg_key g \<in> dom (ct_cg_map st)"
      using assms(3) by simp
    have "True \<longrightarrow> length (map (index_of (ct_names st ! i)) (channel_names g)) = length (channel_names g) \<and>
        set (map (index_of (ct_names st ! i)) (channel_names g)) = {..<length (channel_names g)}"
      using rp by simp
    then show ?thesis
      using cat_group_rest_wf [OF assms(2) _ k, of True
          "map (index_of (ct_names st ! i)) (channel_names g)" origin aso dtc offset i]
        assms(1) False eq
      by (simp add: cat_group_def)
  qed
qed

lemma cat_groups_later_wf:
  assumes "mdf_index \<noteq> 0" and "list_all wf_group gs" and "map vg_key gs = [i..<i + length gs]"
    and "\<forall>j < i + length gs. ct_names st ! j \<noteq> [] \<longrightarrow> j \<in> dom (ct_cg_map st)"
  shows "cat_groups origin aso dtc mdf_index offset i gs st = Inl (MdfException Different_channels) \<or>
         (\<exists>st'. cat_groups origin aso dtc mdf_index offset i gs st = Inr st' \<and>
                dom (ct_cg_map st') = dom (ct_cg_map st))"
  using assms(2,3,4)
proof (induction gs arbitrary: i st)
  case Nil
  then show ?case by simp
next
  case (Cons g gs)
  have key: "vg_key g = i" and keys: "map vg_key gs = [Suc i..<Suc i + length gs]"
    using Cons.prems(2) by (simp_all add: upt_rec)
  have "ct_names st ! i \<noteq> [] \<longrightarrow> vg_key g \<in> dom (ct_cg_map st)"
    using Cons.prems(3) key by simp
  then consider "cat_group origin aso dtc mdf_index offset i g st = Inl (MdfException Different_channels)"
    | st1 where "cat_group origin aso dtc mdf_index offset i g st = Inr st1"
        "dom (ct_cg_map st1) = dom (ct_cg_map st)"
    using cat_group_later_wf [OF assms(1), of g st i origin aso dtc offset] Cons.prems(1) by auto
  then show ?case
  proof cases
    case 1
    then show ?thesis by simp
  next
    case 2
    have n: "ct_names st1 = ct_names st" using cat_group_later_Inr [OF assms(1) 2(1)] by simp
    have "\<forall>j < Suc i + length gs. ct_names st1 ! j \<noteq> [] \<longrightarrow> j \<in> dom (ct_cg_map st1)"
      using Cons.prems(3) n 2(2) by simp
    then have "cat_groups origin aso dtc mdf_index offset (Suc i) gs st1 = Inl (MdfException Different_channels) \<or>
         (\<exists>st'. cat_groups origin aso dtc mdf_index offset (Suc i) gs st1 = Inr st' \<and>
                dom (ct_cg_map st') = dom (ct_cg_map st1))"
      using Cons.IH [OF _ keys, of st1] Cons.prems(1) by simp
    then show ?thesis using 2 by auto
  qed
qed

lemma cat_file_later_wf:
  assumes "mdf_index \<noteq> 0" and "wf_file mdf" and "first_merged first st"
  shows "(\<exists>e. fst (cat_file origin aso dtc mdf_index offset mdf st) = Inl e \<and> structural_mismatch e) \<or>
         (\<exists>st'. fst (cat_file origin aso dtc mdf_index offset mdf st) = Inr st' \<and> first_merged first st')"
proof (cases "length (vgroups mdf) = ct_groups_nr st")
  case False
  then show ?thesis using assms(1) by (simp add: cat_file_def Let_def structural_mismatch_def)
next
  case True
  have len: "length (vgroups mdf) = length (vgroups first)"
    using True assms(3) by (simp add: first_merged_def)
  have wg: "list_all wf_group (vgroups mdf)"
    and keys: "map vg_key (vgroups mdf) = [0..<0 + length (vgroups mdf)]"
    using assms(2) by (simp_all add: wf_file_def)
  have k: "\<forall>j < 0 + length (vgroups mdf). ct_names st ! j \<noteq> [] \<longrightarrow> j \<in> dom (ct_cg_map st)"
    using assms(3) len by (simp add: first_merged_def)
  consider "cat_groups origin aso dtc mdf_index offset 0 (vgroups mdf) st = Inl (MdfException Different_channels)"
    | st' where "cat_groups origin aso dtc mdf_index offset 0 (vgroups mdf) st = Inr st'"
        "dom (ct_cg_map st') = dom (ct_cg_map st)"
    using cat_groups_later_wf [OF assms(1) wg keys k] by blast
  then show ?thesis
  proof cases
    case 1
    then show ?thesis using assms(1) True by (simp add: cat_file_def Let_def structural_mismatch_def)
  next
    case 2
    have r: "fst (cat_file origin aso dtc mdf_index offset mdf st) = Inr st'"
      using assms(1) True 2(1) by (simp add: cat_file_def Let_def)
    have "ct_names st' = ct_names st \<and> ct_groups_nr st' = ct_groups_nr st"
      using assms(1) r by (rule cat_file_later_Inr)
    then have "first_merged first st'" using assms(3) 2(2) by (simp add: first_merged_def)
    then show ?thesis using r by blast
  qed
qed

lemma cat_files_later_wf:
  assumes "list_all wf_file (map snd fs)" and "i \<noteq> 0" and "first_merged first st"
    and "fst (cat_files origin aso dtc terminate i fs st) = Inl e"
  shows "structural_mismatch e"
  using assms
proof (induction fs arbitrary: i st)
  case Nil
  then show ?case by simp
next
  case (Cons f fs)
  obtain offset mdf where f: "f = (offset, mdf)" by (cases f)
  obtain r mdf' where c: "cat_file origin aso dtc i offset mdf st = (r, mdf')"
    by (cases "cat_file origin aso dtc i offset mdf st")
  have wf: "wf_file mdf" using Cons.prems(1) f by simp
  note alt = cat_file_later_wf [OF Cons.prems(2) wf Cons.prems(3), of origin aso dtc offset]
  show ?case
  proof (cases r)
    case (Inl e')
    then have "e' = e" using Cons.prems(4) by (simp add: f c)
    then show ?thesis using alt c Inl by auto
  next
    case (Inr st2)
    then have fm: "first_merged first st2" using alt c by auto
    have "fst (cat_files origin aso dtc terminate (Suc i) fs st2) = Inl e"
      using Cons.prems(4) by (auto simp: f c Inr split: prod.splits if_splits)
    then show ?thesis using Cons.IH [of "Suc i" st2] Cons.prems(1) fm by simp
  qed
qed

text \<open>
  C3. For a non-empty list of well-formed files and while the call is not aborted: when
  the files do not have identical channel-group structure (the same number of virtual
  groups, and in each corresponding group the same channel names), \<^verbatim>\<open>concatenate\<close>
  raises the \<^verbatim>\<open>MdfException\<close> of the structural mismatch and produces no file. For every
  list of files with identical structure this exception is never raised.
\<close>

theorem concatenate_structure_check:
  assumes "files \<noteq> []"
  shows "(\<not> identical_structure files \<and> (\<forall>k. \<not> terminate k) \<and> list_all wf_file files \<longrightarrow>
            (\<exists>e. fst (concatenate origin terminate files sync aso dtc) = Inl e \<and>
                 structural_mismatch e)) \<and>
         (identical_structure files \<longrightarrow>
            (\<forall>e. fst (concatenate origin terminate files sync aso dtc) = Inl e \<longrightarrow>
                 \<not> structural_mismatch e))"
proof -
  obtain first others where files: "files = first # others"
    using assms by (cases files) auto
  define offsets where "offsets = (if sync
                        then map (\<lambda>file. if start_time file - oldest files > 0
                                          then start_time file - oldest files else 0) files
                        else map (\<lambda>file. 0) files)"
  define st0 :: "'a cat_state" where "st0 = \<lparr>ct_merged = [], ct_cg_map = Map.empty, ct_last = None, ct_last_timestamps = [],
               ct_names = [], ct_groups_nr = 0\<rparr>"
  have conc: "concatenate origin terminate files sync aso dtc
      = cat_files origin aso dtc terminate 0 (zip offsets files) st0"
    using assms by (simp add: concatenate_def offsets_def st0_def)
  have "length offsets = length files" by (simp add: offsets_def)
  then obtain o1 os where offs: "offsets = o1 # os" and los: "length os = length others"
    by (cases offsets) (auto simp: files)
  have z: "zip offsets files = (o1, first) # zip os others" by (simp add: offs files)
  have ms: "map snd (zip os others) = others" using los by simp
  have id: "identical_structure files = list_all (same_structure first) (map snd (zip os others))"
    by (simp add: identical_structure_def files ms)
  obtain r mdf' where c: "cat_file origin aso dtc 0 o1 first st0 = (r, mdf')"
    by (cases "cat_file origin aso dtc 0 o1 first st0")
  have a: "\<exists>e. fst (concatenate origin terminate files sync aso dtc) = Inl e \<and> structural_mismatch e"
    if h1: "\<not> identical_structure files" and h2: "\<forall>k. \<not> terminate k"
      and h3: "list_all wf_file files"
  proof -
    have wf1: "wf_file first" and wfo: "list_all wf_file (map snd (zip os others))"
      using h3 by (simp_all add: files ms)
    obtain st1 where st1: "r = Inr st1" "first_merged first st1"
      using cat_file_first_wf [OF wf1, of st0 origin aso dtc o1] c by (auto simp: st0_def)
    have inv: "ct_names st1 = map channel_names (vgroups first)"
        "ct_groups_nr st1 = length (vgroups first)"
      using st1(2) by (simp_all add: first_merged_def)
    have nt: "\<not> terminate 0" using h2 by blast
    have "\<exists>e. fst (cat_files origin aso dtc terminate (Suc 0) (zip os others) st1) = Inl e"
    proof (rule cat_files_later_mismatch [OF _ inv h2])
      show "Suc 0 \<noteq> 0" by simp
      show "\<not> list_all (same_structure first) (map snd (zip os others))" using h1 id by simp
    qed
    then obtain e where e: "fst (cat_files origin aso dtc terminate (Suc 0) (zip os others) st1) = Inl e" ..
    have "structural_mismatch e"
      using wfo _ st1(2) e by (rule cat_files_later_wf) simp
    moreover have "fst (concatenate origin terminate files sync aso dtc) = Inl e"
      using nt e by (auto simp: conc z c st1(1) split: prod.splits)
    ultimately show ?thesis by blast
  qed
  have b: "\<not> structural_mismatch e"
    if h1: "identical_structure files"
      and h2: "fst (concatenate origin terminate files sync aso dtc) = Inl e" for e
  proof (cases r)
    case (Inl e')
    then have "e' = e" using h2 by (simp add: conc z c)
    then have "data_error e"
      using cat_file_first_Inl [of origin aso dtc o1 first st0 e] c Inl by simp
    then show ?thesis by (rule data_error_not_structural)
  next
    case (Inr st1)
    then have inv: "ct_names st1 = map channel_names (vgroups first)"
        "ct_groups_nr st1 = length (vgroups first)"
      using cat_file_first_Inr [of origin aso dtc o1 first st0 st1] c by (simp_all add: st0_def)
    have "fst (cat_files origin aso dtc terminate (Suc 0) (zip os others) st1) = Inl e"
      using h2 by (auto simp: conc z c Inr split: prod.splits if_splits)
    then have "data_error e"
      using cat_files_later_Inl [OF _ inv, of "Suc 0" "zip os others" origin aso dtc terminate e]
        h1 id by simp
    then show ?thesis by (rule data_error_not_structural)
  qed
  show ?thesis using a b by blast
qed

theorem concatenate_structure_check_witness:
  "\<not> identical_structure
       [\<lparr>vgroups = [\<lparr>vg_key = 0, channel_names = [''S''],
                     fragments = [\<lparr>master = [0, 1], columns = [([5, 6 :: int], None)]\<rparr>]\<rparr>],
         start_time = 0, copy_on_get = True\<rparr>,
        \<lparr>vgroups = [\<lparr>vg_key = 0, channel_names = [''T''],
                     fragments = [\<lparr>master = [0, 1], columns = [([7, 8], None)]\<rparr>]\<rparr>],
         start_time = 0, copy_on_get = True\<rparr>] \<and>
   (\<exists>e. fst (concatenate int (\<lambda>k. False)
       [\<lparr>vgroups = [\<lparr>vg_key = 0, channel_names = [''S''],
                     fragments = [\<lparr>master = [0, 1], columns = [([5, 6 :: int], None)]\<rparr>]\<rparr>],
         start_time = 0, copy_on_get = True\<rparr>,
        \<lparr>vgroups = [\<lparr>vg_key = 0, channel_names = [''T''],
                     fragments = [\<lparr>master = [0, 1], columns = [([7, 8], None)]\<rparr>]\<rparr>],
         start_time = 0, copy_on_get = True\<rparr>] False False False) = Inl e \<and>
       structural_mismatch e) \<and>
   fst (concatenate int (\<lambda>k. False)
       [\<lparr>vgroups = [\<lparr>vg_key = 0, channel_names = [''S''],
                     fragments = [\<lparr>master = [0, 1], columns = [([5, 6 :: int], None)]\<rparr>]\<rparr>],
         start_time = 0, copy_on_get = True\<rparr>,
        \<lparr>vgroups = [\<lparr>vg_key = 0, channel_names = [''T''],
                     fragments = [\<lparr>master = [0, 1], columns = [([7, 8], None)]\<rparr>]\<rparr>],
         start_time = 0, copy_on_get = True\<rparr>] False False False)
     = Inl (MdfException Different_channels) \<and>
   identical_structure
       [\<lparr>vgroups = [\<lparr>vg_key = 0, channel_names = [''S''],
                     fragments = [\<lparr>master = [0, 1], columns = [([5, 6 :: int], None)]\<rparr>]\<rparr>],
         start_time = 0, copy_on_get = True\<rparr>,
        \<lparr>vgroups = [\<lparr>vg_key = 0, channel_names = [''S''],
                     fragments = [\<lparr>master = [0, 1], columns = [([7, 8], None)]\<rparr>]\<rparr>],
         start_time = 0, copy_on_get = True\<rparr>] \<and>
   fst (concatenate int (\<lambda>k. False)
       [\<lparr>vgroups = [\<lparr>vg_key = 0, channel_names = [''S''],
                     fragments = [\<lparr>master = [0, 1], columns = [([5, 6 :: int], None)]\<rparr>]\<rparr>],
         start_time = 0, copy_on_get = True\<rparr>,
        \<lparr>vgroups = [\<lparr>vg_key = 0, channel_names = [''S''],
                     fragments = [\<lparr>master = [0, 1], columns = [([7, 8], None)]\<rparr>]\<rparr>],
         start_time = 0, copy_on_get = True\<rparr>] False False False)
     \<noteq> Inl (MdfException Different_channels)"
proof -
  let ?A = "\<lparr>vgroups = [\<lparr>vg_key = 0, channel_names = [''S''],
                     fragments = [\<lparr>master = [0, 1], columns = [([5, 6 :: int], None)]\<rparr>]\<rparr>],
         start_time = 0, copy_on_get = True\<rparr>"
  let ?B = "\<lparr>vgroups = [\<lparr>vg_key = 0, channel_names = [''T''],
                     fragments = [\<lparr>master = [0, 1], columns = [([7, 8 :: int], None)]\<rparr>]\<rparr>],
         start_time = 0, copy_on_get = True\<rparr>"
  let ?C = "\<lparr>vgroups = [\<lparr>vg_key = 0, channel_names = [''S''],
                     fragments = [\<lparr>master = [0, 1], columns = [([7, 8 :: int], None)]\<rparr>]\<rparr>],
         start_time = 0, copy_on_get = True\<rparr>"
  have n: "\<not> identical_structure [?A, ?B]"
    by (simp add: identical_structure_def same_structure_def)
  have i: "identical_structure [?A, ?C]"
    by (simp add: identical_structure_def same_structure_def)
  have w: "list_all wf_file [?A, ?B]"
    by (simp add: wf_file_def wf_group_def wf_fragment_def)
  have v: "fst (concatenate int (\<lambda>k. False) [?A, ?B] False False False)
      = Inl (MdfException Different_channels)"
    by (simp add: concatenate_def cat_file_def cat_group_def cat_group_rest_def cat_first_def
        first_signals_def append_group_def Let_def)
  have "\<exists>e. fst (concatenate int (\<lambda>k. False) [?A, ?B] False False False) = Inl e \<and>
       structural_mismatch e"
    using concatenate_structure_check [of "[?A, ?B]" "\<lambda>k. False" int False False False] n w
    by simp
  moreover have "fst (concatenate int (\<lambda>k. False) [?A, ?C] False False False)
     \<noteq> Inl (MdfException Different_channels)"
    using concatenate_structure_check [of "[?A, ?C]" "\<lambda>k. False" int False False False] i
    by (auto simp: structural_mismatch_def)
  ultimately show ?thesis using n i v by blast
qed

subsection \<open>The raster of \<^verbatim>\<open>MDF.resample\<close>\<close>

lemma resample_group_master:
  assumes "resample_group interp raster None g out = Inr out'"
  shows "\<exists>og. out' = out @ [og] \<and> og_source og = vg_key g \<and>
           (og_columns og \<noteq> [] \<longrightarrow> og_master og = raster)"
proof -
  obtain sigs where s: "select_group g = Inr sigs"
    using assms by (cases "select_group g") (auto simp: resample_group_def)
  define og where "og = \<lparr>og_source = vg_key g,
      og_master = (case map (\<lambda>sig. Signal_interp interp sig raster) sigs of
                     [] \<Rightarrow> [] | sig # _ \<Rightarrow> timestamps sig),
      og_columns = map (\<lambda>sig. (samples sig, invalidation_bits sig))
                       (map (\<lambda>sig. Signal_interp interp sig raster) sigs)\<rparr>"
  have "out' = out @ [og]"
    using assms by (simp add: resample_group_def s append_group_def og_def)
  moreover have "og_columns og \<noteq> [] \<longrightarrow> og_master og = raster"
    by (cases sigs) (simp_all add: og_def Signal_interp_def)
  moreover have "og_source og = vg_key g" by (simp add: og_def)
  ultimately show ?thesis by blast
qed

lemma resample_groups_master:
  assumes "\<forall>g \<in> set gs. \<exists>sigs. select_group g = Inr sigs" and "\<forall>k. \<not> terminate k"
  shows "\<exists>new. resample_groups interp raster None terminate i gs out = Inr (Some (out @ new)) \<and>
           map og_source new = map vg_key gs \<and>
           (\<forall>og \<in> set new. og_columns og \<noteq> [] \<longrightarrow> og_master og = raster)"
  using assms(1)
proof (induction gs arbitrary: i out)
  case Nil
  then show ?case by simp
next
  case (Cons g gs)
  obtain sigs where "select_group g = Inr sigs" using Cons.prems by auto
  then obtain out' where o: "resample_group interp raster None g out = Inr out'"
    by (simp add: resample_group_def)
  obtain og where og: "out' = out @ [og]" "og_source og = vg_key g"
      "og_columns og \<noteq> [] \<longrightarrow> og_master og = raster"
    using resample_group_master [OF o] by blast
  have nt: "\<not> terminate i" using assms(2) by blast
  have "\<forall>g \<in> set gs. \<exists>sigs. select_group g = Inr sigs" using Cons.prems by simp
  then obtain new where new:
      "resample_groups interp raster None terminate (Suc i) gs out' = Inr (Some (out' @ new))"
      "map og_source new = map vg_key gs"
      "\<forall>og \<in> set new. og_columns og \<noteq> [] \<longrightarrow> og_master og = raster"
    using Cons.IH [of "Suc i" out'] by blast
  have "resample_groups interp raster None terminate i (g # gs) out = Inr (Some (out @ og # new))"
    using o nt new(1) og(1) by simp
  moreover have "map og_source (og # new) = map vg_key (g # gs)" using og(2) new(2) by simp
  moreover have "\<forall>x \<in> set (og # new). og_columns x \<noteq> [] \<longrightarrow> og_master x = raster"
    using og(3) new(3) by simp
  ultimately show ?case by blast
qed

text \<open>
  What \<^verbatim>\<open>resample(raster)\<close> does guarantee, with \<^verbatim>\<open>time_from_zero\<close> off, when it is not
  aborted and the channels of every group can be selected: the new file has one group for
  each virtual group, and every group with channels has the raster as its time stamps, in
  the order of the raster. The raster is the argument itself for a sequence and for an
  array that does not hold exactly one element, the time stamps of the named channel for a
  string that is not the spelling of a number, and the result of
  \<^verbatim>\<open>master_using_raster\<close> for a positive number.
\<close>

theorem resample_on_raster:
  assumes "\<forall>g \<in> set (vgroups self). \<exists>sigs. select_group g = Inr sigs" and "\<forall>k. \<not> terminate k"
    and "case raster of
           Number x \<Rightarrow> 0 < x \<and> r = master_using_raster self x
         | Name s \<Rightarrow> float_of_str s = None \<and> get_timestamps s = Inr r
         | Sequence xs \<Rightarrow> r = xs
         | NdArray xs \<Rightarrow> length xs \<noteq> 1 \<and> r = xs"
  shows "\<exists>out. resample float_of_str master_using_raster get_timestamps interp terminate self
                 raster False = Inr (Some out) \<and>
           map og_source out = map vg_key (vgroups self) \<and>
           (\<forall>og \<in> set out. og_columns og \<noteq> [] \<longrightarrow> og_master og = r)"
proof -
  have rr: "resample_raster float_of_str master_using_raster get_timestamps self raster = Inr r"
  proof (cases raster)
    case (Number x)
    then show ?thesis using assms(3) by (simp add: resample_raster_def)
  next
    case (Name s)
    then show ?thesis using assms(3) by (simp add: resample_raster_def)
  next
    case (Sequence xs)
    then show ?thesis using assms(3) by (simp add: resample_raster_def)
  next
    case (NdArray xs)
    then have "length xs \<noteq> 1" "r = xs" using assms(3) by simp_all
    then show ?thesis
      by (cases xs rule: list.exhaust [case_names Nil Cons])
         (auto simp: resample_raster_def NdArray split: list.splits)
  qed
  obtain new where "resample_groups interp r None terminate 0 (vgroups self) [] = Inr (Some ([] @ new))"
      "map og_source new = map vg_key (vgroups self)"
      "\<forall>og \<in> set new. og_columns og \<noteq> [] \<longrightarrow> og_master og = r"
    using resample_groups_master [OF assms(1,2), of interp r 0 "[]"] by blast
  then show ?thesis by (auto simp: resample_def rr)
qed





end
